theory Spec2Isabelle
  imports Complex_Main "HOL-Library.Word"
begin

section \<open>Text primitives\<close>

text \<open>
  The route handler works on JavaScript strings. A text is modelled as a \<open>string\<close>
  (a list of 8-bit characters); case conversion maps the ASCII letters and leaves every
  other character alone, which is what \<open>toLowerCase\<close>, \<open>toUpperCase\<close> and the
  \<open>i\<close> flag of a regular expression do on ASCII text.
\<close>

definition NL :: char where
  "NL = CHR 0x0A"

definition code_of :: "char \<Rightarrow> nat" where
  "code_of c = of_char c"

definition upper_letters :: string where
  "upper_letters = ''ABCDEFGHIJKLMNOPQRSTUVWXYZ''"

definition lower_letters :: string where
  "lower_letters = ''abcdefghijklmnopqrstuvwxyz''"

definition digits :: string where
  "digits = ''0123456789''"

definition toLowerChar :: "char \<Rightarrow> char" where
  "toLowerChar c = (case map_of (zip upper_letters lower_letters) c of Some l \<Rightarrow> l | None \<Rightarrow> c)"

definition toUpperChar :: "char \<Rightarrow> char" where
  "toUpperChar c = (case map_of (zip lower_letters upper_letters) c of Some u \<Rightarrow> u | None \<Rightarrow> c)"

definition toLowerCase :: "string \<Rightarrow> string" where
  "toLowerCase s = map toLowerChar s"

definition is_space :: "char \<Rightarrow> bool" where
  \<comment> \<open>\<open>\s\<close>: tab, line feed, vertical tab, form feed, carriage return, space, no-break space\<close>
  "is_space c = (c \<in> set [CHR 0x09, CHR 0x0A, CHR 0x0B, CHR 0x0C, CHR 0x0D, CHR 0x20, CHR 0xA0])"

definition is_alnum :: "char \<Rightarrow> bool" where
  "is_alnum c = (c \<in> set (upper_letters @ lower_letters @ digits))"

fun startsWith :: "string \<Rightarrow> string \<Rightarrow> bool" where
  "startsWith s [] = True"
| "startsWith [] (p # ps) = False"
| "startsWith (c # cs) (p # ps) = (c = p \<and> startsWith cs ps)"

fun includes_str :: "string \<Rightarrow> string \<Rightarrow> bool" where
  "includes_str [] sub = startsWith [] sub"
| "includes_str (c # cs) sub = (startsWith (c # cs) sub \<or> includes_str cs sub)"

definition trim :: "string \<Rightarrow> string" where
  "trim s = rev (dropWhile is_space (rev (dropWhile is_space s)))"

fun split_on :: "char \<Rightarrow> string \<Rightarrow> string list" where
  "split_on d [] = [[]]"
| "split_on d (c # cs) =
     (if c = d then [] # split_on d cs
      else (case split_on d cs of [] \<Rightarrow> [[c]] | w # ws \<Rightarrow> (c # w) # ws))"

section \<open>Regular expressions\<close>

text \<open>
  The regular expressions of the source are alternations of sequences of literals,
  single characters of a class, optional characters of a class and greedy repetitions
  of a class. A pattern is the list of its alternatives in source order; a group
  followed by a common tail is written with the tail repeated in each alternative,
  which keeps the order in which a backtracking matcher tries them.
\<close>

datatype cls = Space | NonSpace | WordChar | Assign | Quote | SecretChar | TokenChar

fun in_cls :: "cls \<Rightarrow> char \<Rightarrow> bool" where
  "in_cls Space c = is_space c"
| "in_cls NonSpace c = (\<not> is_space c)"
| "in_cls WordChar c = (is_alnum c \<or> c = CHR ''_'')"
| "in_cls Assign c = (c = CHR '':'' \<or> c = CHR ''='')"
| "in_cls Quote c = (c = CHR 0x22 \<or> c = CHR 0x27)"
| "in_cls SecretChar c = (is_alnum c \<or> c = CHR ''_'' \<or> c = CHR ''-'' \<or> c = CHR ''.'')"
| "in_cls TokenChar c = (is_alnum c \<or> c = CHR ''-'' \<or> c = CHR ''_'' \<or> c = CHR ''.'')"

datatype item = Lit string | One cls | Opt cls | Many nat cls | End

type_synonym pattern = "item list list"

fun lit_prefix :: "bool \<Rightarrow> string \<Rightarrow> string \<Rightarrow> bool" where
  "lit_prefix ci [] s = True"
| "lit_prefix ci (p # ps) [] = False"
| "lit_prefix ci (p # ps) (c # cs) =
     ((if ci then toLowerChar p = toLowerChar c else p = c) \<and> lit_prefix ci ps cs)"

text \<open>
  \<open>residuals ci items s\<close> lists what is left of \<open>s\<close> after each way of matching
  \<open>items\<close> at the start of \<open>s\<close>, in the order a backtracking matcher finds them:
  a greedy repetition gives back one character at a time, an optional character is
  tried before its absence. \<open>ci\<close> is the \<open>i\<close> flag.
\<close>

fun residuals :: "bool \<Rightarrow> item list \<Rightarrow> string \<Rightarrow> string list" where
  "residuals ci [] s = [s]"
| "residuals ci (Lit l # r) s =
     (if lit_prefix ci l s then residuals ci r (drop (length l) s) else [])"
| "residuals ci (One k # r) s =
     (case s of [] \<Rightarrow> [] | c # t \<Rightarrow> if in_cls k c then residuals ci r t else [])"
| "residuals ci (Opt k # r) s =
     (case s of [] \<Rightarrow> residuals ci r s
      | c # t \<Rightarrow> if in_cls k c then residuals ci r t @ residuals ci r s else residuals ci r s)"
| "residuals ci (End # r) s = (if s = [] then residuals ci r s else [])"
| "residuals ci (Many n k # r) s =
     concat (map (\<lambda>j. residuals ci r (drop j s))
                 (rev [n ..< Suc (length (takeWhile (in_cls k) s))]))"

fun match_here :: "bool \<Rightarrow> pattern \<Rightarrow> string \<Rightarrow> string option" where
  "match_here ci [] s = None"
| "match_here ci (a # as) s =
     (case residuals ci a s of [] \<Rightarrow> match_here ci as s | r # _ \<Rightarrow> Some r)"

text \<open>\<open>RegExp.test\<close> without the \<open>g\<close> flag: is there a match at some position.\<close>

fun regex_test :: "bool \<Rightarrow> pattern \<Rightarrow> string \<Rightarrow> bool" where
  "regex_test ci p [] = (match_here ci p [] \<noteq> None)"
| "regex_test ci p (c # cs) = (match_here ci p (c # cs) \<noteq> None \<or> regex_test ci p cs)"

text \<open>
  \<open>String.match\<close> without the \<open>g\<close> flag: the text of the leftmost match, if any.
\<close>

fun regex_match :: "bool \<Rightarrow> pattern \<Rightarrow> string \<Rightarrow> string option" where
  "regex_match ci p [] = (case match_here ci p [] of None \<Rightarrow> None | Some r \<Rightarrow> Some [])"
| "regex_match ci p (c # cs) =
     (case match_here ci p (c # cs) of
        None \<Rightarrow> regex_match ci p cs
      | Some r \<Rightarrow> Some (take (Suc (length cs) - length r) (c # cs)))"

text \<open>
  \<open>String.replace\<close> with a \<open>g\<close> pattern: scanning from the left, each match found at
  the scan position is replaced and the scan resumes after it; a character at which
  nothing matches is copied. After an empty match the next character is copied.
\<close>

function replace_all :: "bool \<Rightarrow> pattern \<Rightarrow> string \<Rightarrow> string \<Rightarrow> string" where
  "replace_all ci p marker s =
     (case match_here ci p s of
        None \<Rightarrow> (case s of [] \<Rightarrow> [] | c # t \<Rightarrow> c # replace_all ci p marker t)
      | Some r \<Rightarrow>
          if length r < length s then marker @ replace_all ci p marker r
          else (case s of [] \<Rightarrow> marker | c # t \<Rightarrow> marker @ c # replace_all ci p marker t))"
  by pat_completeness auto
termination
  by (relation "measure (\<lambda>(ci, p, marker, s). length s)") auto

declare replace_all.simps [simp del]

text \<open>\<open>String.replace\<close> with a pattern without the \<open>g\<close> flag: only the leftmost match.\<close>

fun replace_first :: "bool \<Rightarrow> pattern \<Rightarrow> string \<Rightarrow> string \<Rightarrow> string" where
  "replace_first ci p marker [] = (case match_here ci p [] of None \<Rightarrow> [] | Some r \<Rightarrow> marker)"
| "replace_first ci p marker (c # cs) =
     (case match_here ci p (c # cs) of
        None \<Rightarrow> c # replace_first ci p marker cs
      | Some r \<Rightarrow> marker @ r)"

definition lits :: "string list \<Rightarrow> pattern" where
  "lits ws = map (\<lambda>w. [Lit w]) ws"

text \<open>The number of matches \<open>String.match\<close> returns with a \<open>g\<close> pattern.\<close>

function count_matches :: "bool \<Rightarrow> pattern \<Rightarrow> string \<Rightarrow> nat" where
  "count_matches ci p s =
     (case match_here ci p s of
        None \<Rightarrow> (case s of [] \<Rightarrow> 0 | c # t \<Rightarrow> count_matches ci p t)
      | Some r \<Rightarrow>
          if length r < length s then Suc (count_matches ci p r)
          else (case s of [] \<Rightarrow> 1 | c # t \<Rightarrow> Suc (count_matches ci p t)))"
  by pat_completeness auto
termination
  by (relation "measure (\<lambda>(ci, p, s). length s)") auto

declare count_matches.simps [simp del]

section \<open>Sanitizer\<close>

definition truncateDiff :: "string \<Rightarrow> nat \<Rightarrow> string" where
  "truncateDiff input maxChars = (if length input \<le> maxChars then input else take maxChars input)"

definition secret_tail :: "item list" where
  \<comment> \<open>\<open>\s*[:=]\s*["']?[A-Za-z0-9_\-\.]{16,}["']?\<close>\<close>
  "secret_tail = [Many 0 Space, One Assign, Many 0 Space, Opt Quote, Many 16 SecretChar, Opt Quote]"

definition secret_pattern :: pattern where
  "secret_pattern = map (\<lambda>w. Lit w # secret_tail) [''api'', ''secret'', ''password'', ''token'', ''key'']"

definition bearer_pattern :: pattern where
  \<comment> \<open>\<open>(Bearer)\s+[A-Za-z0-9\-_.]{16,}\<close>\<close>
  "bearer_pattern = [[Lit ''Bearer'', Many 1 Space, Many 16 TokenChar]]"

definition REDACTED :: string where
  "REDACTED = ''[REDACTED]''"

definition redactSecrets :: "string \<Rightarrow> string" where
  "redactSecrets input = foldl (\<lambda>out re. replace_all True re REDACTED out) input [secret_pattern, bearer_pattern]"

section \<open>Cache key\<close>

definition hash_step :: "32 word \<Rightarrow> char \<Rightarrow> 32 word" where
  \<comment> \<open>\<open>hash = ((hash << 5) - hash) + char; hash = hash & hash\<close>, in 32-bit two's complement\<close>
  "hash_step hash c = (push_bit 5 hash - hash) + of_nat (code_of c)"

definition digit_char :: "nat \<Rightarrow> char" where
  "digit_char d = digits ! d"

fun show_nat :: "nat \<Rightarrow> string" where
  "show_nat n = (if n < 10 then [digit_char n] else show_nat (n div 10) @ [digit_char (n mod 10)])"

definition generateCacheKey :: "string \<Rightarrow> string" where
  "generateCacheKey diff = ''commit_'' @ show_nat (nat \<bar>sint (foldl hash_step 0 diff)\<bar>)"

section \<open>Diff analysis\<close>

datatype change_type =
  Feature | BugFix | Security | Performance | Refactor | Styling | Test | Docs | Config
  | Database | Api | Chore

datatype complexity = Low | Medium | High

record DiffAnalysis =
  fileName :: string
  fileExtension :: string
  addedLines :: nat
  removedLines :: nat
  totalChanges :: nat
  fileCount :: nat
  changeType :: change_type
  confidence :: rat
  complexity :: complexity
  patterns :: "change_type list"

text \<open>The \<open>patterns\<close> object of \<open>analyzeDiff\<close>, in the order of its keys.\<close>

definition patterns_table :: "(change_type \<times> pattern) list" where
  "patterns_table =
    [(BugFix, lits [''.trim()'', ''.toLowerCase()'', ''.toUpperCase()'', ''null'', ''undefined'',
        ''error'', ''exception'', ''catch'', ''try'', ''fix'', ''bug'']),
     (Security, lits [''password'', ''auth'', ''token'', ''secret'', ''key'', ''encrypt'', ''decrypt'',
        ''hash'', ''salt'', ''jwt'', ''oauth'']),
     (Performance, lits [''optimize'', ''performance'', ''speed'', ''memory'', ''cache'', ''lazy'',
        ''memo'', ''debounce'', ''throttle'']),
     (Feature,
        [[Lit ''const'', Many 1 Space, Many 1 WordChar, Many 0 Space, Lit ''=''],
         [Lit ''function'', Many 1 Space, Many 1 WordChar],
         [Lit ''export'', Many 1 Space, Lit ''default''],
         [Lit ''component''],
         [Lit ''interface''],
         [Lit ''class'', Many 1 Space, Many 1 WordChar],
         [Lit ''new'', Many 1 Space, Many 1 WordChar],
         [Lit ''add''],
         [Lit ''create''],
         [Lit ''implement'']]),
     (Refactor, lits [''refactor'', ''clean'', ''optimize'', ''import'', ''require'', ''restructure'',
        ''reorganize'']),
     (Styling, lits [''style'', ''format'', ''lint'', ''css'', ''className'', ''class='', ''color'',
        ''font'', ''margin'', ''padding'']),
     (Test, lits [''test'', ''spec'', ''.test.'', ''.spec.'', ''describe'', ''it('', ''expect'',
        ''assert'']),
     (Docs, lits [''doc'', ''readme'', ''comment'', ''//'', ''/*'', ''md'', ''.md'']),
     (Config, lits [''config'', ''package.json'', ''dependencies'', ''webpack'', ''babel'', ''eslint'',
        ''tsconfig'']),
     (Database, lits [''sql'', ''query'', ''database'', ''db'', ''migration'', ''schema'', ''table'',
        ''index'', ''select'', ''insert'', ''update'', ''delete'']),
     (Api, lits [''api'', ''endpoint'', ''route'', ''controller'', ''service'', ''fetch'', ''axios'',
        ''http''])]"

definition priorityOrder :: "change_type list" where
  "priorityOrder =
     [Feature, BugFix, Security, Performance, Refactor, Styling, Test, Docs, Config, Database, Api]"

definition pattern_matches :: "change_type \<Rightarrow> string \<Rightarrow> bool" where
  \<comment> \<open>\<open>patterns[type] && patterns[type].test(content)\<close>\<close>
  "pattern_matches t content =
     (case map_of patterns_table t of None \<Rightarrow> False | Some re \<Rightarrow> regex_test True re content)"

text \<open>
  The loop over \<open>priorityOrder\<close>: the accumulator is the pair of \<open>changeType\<close> and
  \<open>confidence\<close>; the \<open>break\<close> is the branch that does not recurse.
\<close>

fun classify :: "change_type list \<Rightarrow> string \<Rightarrow> change_type \<times> rat \<Rightarrow> change_type \<times> rat" where
  "classify [] content acc = acc"
| "classify (t # ts) content (ct, conf) =
     (if pattern_matches t content then (t, min (9 / 10) (conf + 3 / 10))
      else classify ts content (ct, conf))"

definition file_pattern :: pattern where
  \<comment> \<open>\<open>diff --git a\/([^\s]+)\<close>\<close>
  "file_pattern = [[Lit ''diff --git a/'', Many 1 NonSpace]]"

definition last_segment :: "char \<Rightarrow> string \<Rightarrow> string" where
  \<comment> \<open>\<open>s.split(d).pop()\<close>\<close>
  "last_segment d s = last (split_on d s)"

definition analyzeDiff :: "string \<Rightarrow> DiffAnalysis" where
  "analyzeDiff diff =
     (let lines = split_on NL diff;
          added = length (filter (\<lambda>line. startsWith line ''+'') lines);
          removed = length (filter (\<lambda>line. startsWith line ''-'') lines);
          total = added + removed;
          file = (case regex_match False file_pattern diff of
                    None \<Rightarrow> ''unknown''
                  | Some m \<Rightarrow> drop (length ''diff --git a/'') m);
          content = toLowerCase diff;
          (ct, conf) = classify priorityOrder content (Chore, 5 / 10);
          cx = (if total > 50 then High else if total > 20 then Medium else Low);
          files = count_matches False [[Lit ''diff --git'']] diff
      in \<lparr> fileName = file,
           fileExtension = last_segment CHR ''.'' file,
           addedLines = added,
           removedLines = removed,
           totalChanges = total,
           fileCount = files,
           changeType = ct,
           confidence = conf,
           complexity = (if files > 1 then High else cx),
           patterns = filter (\<lambda>t. pattern_matches t content) (map fst patterns_table) \<rparr>)"

section \<open>Local pattern-based engine\<close>

record CommitContext =
  ctx_addedLines :: "string list"
  ctx_removedLines :: "string list"
  ctx_fileType :: string
  ctx_complexity :: complexity
  ctx_patterns :: "change_type list"
  isNewFile :: bool
  isDeletion :: bool
  isModification :: bool

definition analyzeCommitContext :: "string \<Rightarrow> DiffAnalysis \<Rightarrow> CommitContext" where
  "analyzeCommitContext diff analysis =
     (let lines = split_on NL diff;
          added = map (drop 1) (filter (\<lambda>line. startsWith line ''+'') lines);
          removed = map (drop 1) (filter (\<lambda>line. startsWith line ''-'') lines)
      in \<lparr> ctx_addedLines = added,
           ctx_removedLines = removed,
           ctx_fileType = fileExtension analysis,
           ctx_complexity = complexity analysis,
           ctx_patterns = patterns analysis,
           isNewFile = (removed = [] \<and> length added > 5),
           isDeletion = (added = [] \<and> length removed > 0),
           isModification = (length added > 0 \<and> length removed > 0) \<rparr>)"

definition template_text :: "string \<Rightarrow> string list \<Rightarrow> string" where
  \<comment> \<open>a template literal: the subject line, an empty line, the bullet lines\<close>
  "template_text subject bullets = subject @ concat (map (\<lambda>b. NL # b) ([] # bullets))"

definition extractComponentName :: "string \<Rightarrow> string" where
  "extractComponentName file =
     (let stripped = replace_first False
            [[Lit ''.js'', End], [Lit ''.jsx'', End], [Lit ''.ts'', End], [Lit ''.tsx'', End]]
            [] (last_segment CHR ''/'' file);
          base = (if stripped = [] then ''component'' else stripped)
      in map toUpperChar (take 1 base) @ drop 1 base)"

definition generateFeatureCommit :: "string \<Rightarrow> CommitContext \<Rightarrow> string" where
  "generateFeatureCommit file context =
     (let isComponent = (includes_str file ''component'' \<or>
            (\<exists>line \<in> set (ctx_addedLines context).
               includes_str line ''const '' \<and> includes_str line ''='' \<and> includes_str line ''{''))
      in if isComponent then
           template_text (''feat: implement '' @ extractComponentName file @ '' component'')
             [''- Add reusable component with props support'',
              ''- Implement interactive functionality'',
              ''- Enhance user experience with new features'']
         else
           template_text (''feat: add new functionality to '' @ file)
             [''- Implement new feature as requested'',
              ''- Add necessary components and logic'',
              ''- Enhance user experience''])"

definition generateBugFixCommit :: "string \<Rightarrow> CommitContext \<Rightarrow> string" where
  "generateBugFixCommit file context =
     (let hasValidation = (\<exists>line \<in> set (ctx_addedLines context).
            includes_str line ''.trim()'' \<or> includes_str line ''validation'' \<or> includes_str line ''check'')
      in if hasValidation then
           template_text (''fix: improve validation in '' @ file)
             [''- Add input sanitization to prevent edge cases'',
              ''- Handle whitespace and formatting issues'',
              ''- Improve data validation reliability'']
         else
           template_text (''fix: resolve issue in '' @ file)
             [''- Address the problem identified in the code'',
              ''- Improve error handling and validation'',
              ''- Ensure proper functionality''])"

definition generateRefactorCommit :: "string \<Rightarrow> CommitContext \<Rightarrow> string" where
  "generateRefactorCommit file context =
     template_text (''refactor: improve code structure in '' @ file)
       [''- Clean up code organization'',
        ''- Optimize performance and readability'',
        ''- Maintain existing functionality'']"

definition generateStylingCommit :: "string \<Rightarrow> CommitContext \<Rightarrow> string" where
  "generateStylingCommit file context =
     template_text ''style: update formatting and styling''
       [''- Apply consistent code formatting'',
        ''- Fix linting issues'',
        ''- Improve code readability'']"

definition generateTestCommit :: "string \<Rightarrow> CommitContext \<Rightarrow> string" where
  "generateTestCommit file context =
     template_text (''test: add test coverage for '' @ file)
       [''- Add comprehensive test cases'',
        ''- Ensure proper test coverage'',
        ''- Validate functionality'']"

definition generateDocsCommit :: "string \<Rightarrow> CommitContext \<Rightarrow> string" where
  "generateDocsCommit file context =
     template_text ''docs: update documentation''
       [''- Improve code documentation'',
        ''- Add helpful comments and examples'',
        ''- Update README and guides'']"

definition generateConfigCommit :: "string \<Rightarrow> CommitContext \<Rightarrow> string" where
  "generateConfigCommit file context =
     template_text ''chore: update configuration and dependencies''
       [''- Update package dependencies'',
        ''- Modify configuration settings'',
        ''- Maintain project setup'']"

definition generateDatabaseCommit :: "string \<Rightarrow> CommitContext \<Rightarrow> string" where
  "generateDatabaseCommit file context =
     template_text ''db: update database schema or queries''
       [''- Modify database structure or queries'',
        ''- Improve data handling and storage'',
        ''- Optimize database performance'']"

definition generateApiCommit :: "string \<Rightarrow> CommitContext \<Rightarrow> string" where
  "generateApiCommit file context =
     template_text ''api: update API endpoints or services''
       [''- Modify API functionality'',
        ''- Improve request/response handling'',
        ''- Enhance service integration'']"

definition generateSecurityCommit :: "string \<Rightarrow> CommitContext \<Rightarrow> string" where
  "generateSecurityCommit file context =
     template_text (''security: enhance security in '' @ file)
       [''- Implement security improvements'',
        ''- Address potential vulnerabilities'',
        ''- Strengthen authentication/authorization'']"

definition generatePerformanceCommit :: "string \<Rightarrow> CommitContext \<Rightarrow> string" where
  "generatePerformanceCommit file context =
     template_text (''perf: optimize performance in '' @ file)
       [''- Improve code efficiency and speed'',
        ''- Reduce memory usage and processing time'',
        ''- Enhance overall application performance'']"

definition generateChoreCommit :: "string \<Rightarrow> CommitContext \<Rightarrow> string" where
  "generateChoreCommit file context =
     template_text (''chore: update '' @ file)
       [''- Make necessary changes to improve functionality'',
        ''- Update code as required'',
        ''- Maintain project standards'']"

fun template :: "change_type \<Rightarrow> string \<Rightarrow> CommitContext \<Rightarrow> string" where
  "template BugFix = generateBugFixCommit"
| "template Security = generateSecurityCommit"
| "template Performance = generatePerformanceCommit"
| "template Feature = generateFeatureCommit"
| "template Refactor = generateRefactorCommit"
| "template Styling = generateStylingCommit"
| "template Test = generateTestCommit"
| "template Docs = generateDocsCommit"
| "template Config = generateConfigCommit"
| "template Database = generateDatabaseCommit"
| "template Api = generateApiCommit"
| "template Chore = generateChoreCommit"

definition generateLocalPatternBasedCommit :: "string \<Rightarrow> DiffAnalysis \<Rightarrow> string" where
  "generateLocalPatternBasedCommit diff analysis =
     template (changeType analysis) (fileName analysis) (analyzeCommitContext diff analysis)"

section \<open>Provider health\<close>

datatype provider = Aiml | Gemini | Huggingface | Freehf | Openai | Local

record ProviderHealth =
  name :: string
  isHealthy :: bool
  successRate :: rat
  avgResponseTime :: rat
  lastSuccess :: int
  consecutiveFailures :: nat
  priority :: nat

text \<open>
  \<open>providerHealth\<close> is an object with six fixed properties, none of which is ever added
  or deleted: a total table over the six keys. Rates and times are JavaScript numbers;
  the model computes with exact rationals. \<open>boot\<close> is the clock reading when the
  module is loaded.
\<close>

type_synonym health_table = "provider \<Rightarrow> ProviderHealth"

fun initialHealth :: "int \<Rightarrow> health_table" where
  "initialHealth boot Aiml = \<lparr> name = ''AIML'', isHealthy = True, successRate = 95 / 100,
     avgResponseTime = 2500, lastSuccess = boot, consecutiveFailures = 0, priority = 1 \<rparr>"
| "initialHealth boot Gemini = \<lparr> name = ''Gemini'', isHealthy = True, successRate = 90 / 100,
     avgResponseTime = 3000, lastSuccess = boot, consecutiveFailures = 0, priority = 2 \<rparr>"
| "initialHealth boot Huggingface = \<lparr> name = ''HuggingFace'', isHealthy = True, successRate = 85 / 100,
     avgResponseTime = 5000, lastSuccess = boot, consecutiveFailures = 0, priority = 3 \<rparr>"
| "initialHealth boot Freehf = \<lparr> name = ''FreeHF'', isHealthy = True, successRate = 70 / 100,
     avgResponseTime = 4000, lastSuccess = boot, consecutiveFailures = 0, priority = 4 \<rparr>"
| "initialHealth boot Openai = \<lparr> name = ''OpenAI'', isHealthy = True, successRate = 95 / 100,
     avgResponseTime = 2000, lastSuccess = boot, consecutiveFailures = 0, priority = 5 \<rparr>"
| "initialHealth boot Local = \<lparr> name = ''LocalAI'', isHealthy = True, successRate = 1,
     avgResponseTime = 100, lastSuccess = boot, consecutiveFailures = 0, priority = 6 \<rparr>"

fun provider_key :: "provider \<Rightarrow> string" where
  "provider_key Aiml = ''aiml''"
| "provider_key Gemini = ''gemini''"
| "provider_key Huggingface = ''huggingface''"
| "provider_key Freehf = ''freehf''"
| "provider_key Openai = ''openai''"
| "provider_key Local = ''local''"

definition CACHE_TTL :: int where
  "CACHE_TTL = 5 * 60 * 1000"

definition MAX_RETRIES :: nat where
  "MAX_RETRIES = 2"

definition CIRCUIT_BREAKER_THRESHOLD :: nat where
  "CIRCUIT_BREAKER_THRESHOLD = 3"

text \<open>
  \<open>updateProviderHealth\<close> is only called with one of the keys of \<open>providerHealth\<close>, so
  its guard against an unknown name never fires. \<open>now\<close> is the reading of the clock
  taken by a success; a \<open>responseTime\<close> that is absent or \<open>0\<close> leaves the average
  alone.
\<close>

definition updateProviderHealth ::
  "provider \<Rightarrow> bool \<Rightarrow> int option \<Rightarrow> int \<Rightarrow> health_table \<Rightarrow> health_table" where
  "updateProviderHealth providerName success responseTime now table =
     (let health = table providerName in
      if success then
        table(providerName := health\<lparr>
          consecutiveFailures := 0,
          isHealthy := True,
          lastSuccess := now,
          successRate := min 1 (successRate health + 1 / 100),
          avgResponseTime :=
            (case responseTime of
               None \<Rightarrow> avgResponseTime health
             | Some t \<Rightarrow> if t = 0 then avgResponseTime health
                         else (avgResponseTime health + of_int t) / 2) \<rparr>)
      else
        (let failures = consecutiveFailures health + 1 in
         table(providerName := health\<lparr>
           consecutiveFailures := failures,
           successRate := max 0 (successRate health - 5 / 100),
           isHealthy := (if failures \<ge> CIRCUIT_BREAKER_THRESHOLD then False else isHealthy health) \<rparr>)))"

section \<open>Server state\<close>

record CacheEntry =
  response :: string
  timestamp :: int
  entry_analysis :: DiffAnalysis

record Server =
  providerHealth :: health_table
  providerCooldownUntil :: "provider \<rightharpoonup> int"
  responseCache :: "string \<rightharpoonup> CacheEntry"

definition initialServer :: "int \<Rightarrow> Server" where
  "initialServer boot =
     \<lparr> providerHealth = initialHealth boot, providerCooldownUntil = Map.empty,
       responseCache = Map.empty \<rparr>"

definition cleanupCache :: "int \<Rightarrow> (string \<rightharpoonup> CacheEntry) \<Rightarrow> (string \<rightharpoonup> CacheEntry)" where
  "cleanupCache now cache =
     (\<lambda>key. case cache key of
        None \<Rightarrow> None
      | Some v \<Rightarrow> if now - timestamp v > CACHE_TTL then None else Some v)"

record Env =
  AIML_API_KEY :: string
  GEMINI_API_KEY :: string
  HUGGING_FACE_TOKEN :: string
  OPENAI_API_KEY :: string

definition not_cooling :: "(provider \<rightharpoonup> int) \<Rightarrow> provider \<Rightarrow> int \<Rightarrow> bool" where
  \<comment> \<open>\<open>!providerCooldownUntil[key] || providerCooldownUntil[key] < nowTs\<close>\<close>
  "not_cooling cooldown key nowTs =
     (case cooldown key of None \<Rightarrow> True | Some t \<Rightarrow> t = 0 \<or> t < nowTs)"

text \<open>The list \<open>healthyProviders\<close>, which the source only logs.\<close>

definition healthyProviders :: "health_table \<Rightarrow> (provider \<rightharpoonup> int) \<Rightarrow> int \<Rightarrow> provider list" where
  "healthyProviders table cooldown nowTs =
     sort_key (\<lambda>key. priority (table key))
       (filter (\<lambda>key. isHealthy (table key)
                  \<and> consecutiveFailures (table key) < CIRCUIT_BREAKER_THRESHOLD
                  \<and> not_cooling cooldown key nowTs)
          [Aiml, Gemini, Huggingface, Freehf, Openai, Local])"

text \<open>
  The providers whose task \<open>executeIntelligentAIStrategy\<close> pushes onto \<open>promises\<close>, in
  the order of the pushes. An environment variable that is unset is the empty string.
\<close>

definition launched :: "Env \<Rightarrow> int \<Rightarrow> health_table \<Rightarrow> (provider \<rightharpoonup> int) \<Rightarrow> provider list" where
  "launched env nowTs table cooldown =
     (if AIML_API_KEY env \<noteq> [] \<and> isHealthy (table Aiml) then [Aiml] else []) @
     (if GEMINI_API_KEY env \<noteq> [] \<and> isHealthy (table Gemini) then [Gemini] else []) @
     (if HUGGING_FACE_TOKEN env \<noteq> [] \<and> isHealthy (table Huggingface) then [Huggingface] else []) @
     (if isHealthy (table Freehf) then [Freehf] else []) @
     (if OPENAI_API_KEY env \<noteq> [] \<and> isHealthy (table Openai) \<and> not_cooling cooldown Openai nowTs
      then [Openai] else [])"

section \<open>Provider adapters\<close>

text \<open>
  What the network gives back to one \<open>fetchWithTimeout\<close>: \<open>NoReply\<close> when the call
  raises (the fetch is rejected, the timer wins, or the body cannot be read as the
  adapter expects), otherwise the HTTP status and the text field the adapter reads
  from the body, \<open>None\<close> when that field is missing. The network is a function of
  the provider, the attempt of the retry executor, the index of the model tried by
  the adapter, and the prompt sent.
\<close>

datatype reply = NoReply | Reply nat "string option"

type_synonym network = "provider \<Rightarrow> nat \<Rightarrow> nat \<Rightarrow> string \<Rightarrow> reply"

datatype fault = RequestFailed | ApiError nat | NoContent | AllModelsFailed | RetriesExhausted

definition ok :: "nat \<Rightarrow> bool" where
  "ok status = (200 \<le> status \<and> status \<le> 299)"

fun change_type_name :: "change_type \<Rightarrow> string" where
  "change_type_name Feature = ''feature''"
| "change_type_name BugFix = ''bugFix''"
| "change_type_name Security = ''security''"
| "change_type_name Performance = ''performance''"
| "change_type_name Refactor = ''refactor''"
| "change_type_name Styling = ''styling''"
| "change_type_name Test = ''test''"
| "change_type_name Docs = ''docs''"
| "change_type_name Config = ''config''"
| "change_type_name Database = ''database''"
| "change_type_name Api = ''api''"
| "change_type_name Chore = ''chore''"

fun complexity_name :: "complexity \<Rightarrow> string" where
  "complexity_name Low = ''low''"
| "complexity_name Medium = ''medium''"
| "complexity_name High = ''high''"

definition unlines :: "string list \<Rightarrow> string" where
  "unlines ls = (case ls of [] \<Rightarrow> [] | l # rest \<Rightarrow> l @ concat (map (\<lambda>x. NL # x) rest))"

text \<open>The prompt shared by \<open>tryOpenAI\<close>, \<open>tryAIML\<close> and \<open>tryGemini\<close>.\<close>

definition chat_prompt :: "string \<Rightarrow> DiffAnalysis \<Rightarrow> string" where
  "chat_prompt diff a = unlines
     [''You are an expert programmer. Generate a conventional commit message for this git diff.'',
      [],
      ''File: '' @ fileName a,
      ''Change Type: '' @ change_type_name (changeType a),
      ''Complexity: '' @ complexity_name (complexity a),
      [],
      ''Git Diff:'',
      diff,
      [],
      ''Requirements:'',
      ''1. Use conventional commit format (type: description)'',
      ''2. Keep subject line under 50 characters'',
      ''3. Add body explaining what and why'',
      ''4. Be specific and professional'',
      [],
      ''Commit Message:'']"

definition hf_prompt :: "string \<Rightarrow> string" where
  "hf_prompt diff = unlines
     [''Generate a conventional commit message for this git diff:'',
      [],
      diff,
      [],
      ''Format: type: short description'',
      [],
      ''Body:'',
      ''- What changed'',
      ''- Why it changed'',
      [],
      ''Commit message:'']"

definition free_prompt :: "string \<Rightarrow> string" where
  "free_prompt diff = ''Generate commit message for: '' @ take 500 diff"

definition text_or_empty :: "string option \<Rightarrow> string" where
  \<comment> \<open>\<open>field?.trim() || ''\<close>\<close>
  "text_or_empty content = (case content of None \<Rightarrow> [] | Some t \<Rightarrow> trim t)"

definition tryOpenAI :: "network \<Rightarrow> nat \<Rightarrow> string \<Rightarrow> DiffAnalysis \<Rightarrow> fault + string" where
  "tryOpenAI net attempt diff a =
     (case net Openai attempt 0 (chat_prompt diff a) of
        NoReply \<Rightarrow> Inl RequestFailed
      | Reply status content \<Rightarrow>
          if \<not> ok status then Inl (ApiError status) else Inr (text_or_empty content))"

definition tryAIML :: "network \<Rightarrow> nat \<Rightarrow> string \<Rightarrow> DiffAnalysis \<Rightarrow> fault + string" where
  "tryAIML net attempt diff a =
     (case net Aiml attempt 0 (chat_prompt diff a) of
        NoReply \<Rightarrow> Inl RequestFailed
      | Reply status content \<Rightarrow>
          if \<not> ok status then Inl (ApiError status)
          else if text_or_empty content = [] then Inl NoContent
          else Inr (text_or_empty content))"

definition tryGemini :: "network \<Rightarrow> nat \<Rightarrow> string \<Rightarrow> DiffAnalysis \<Rightarrow> fault + string" where
  "tryGemini net attempt diff a =
     (case net Gemini attempt 0 (chat_prompt diff a) of
        NoReply \<Rightarrow> Inl RequestFailed
      | Reply status content \<Rightarrow>
          if \<not> ok status then Inl (ApiError status) else Inr (text_or_empty content))"

text \<open>
  \<open>tryHuggingFaceModels\<close>: the loop over \<open>HUGGING_FACE_MODEL_ORDER\<close>, here over the
  indices of the models still to try, with \<open>lastError\<close> as accumulator.
\<close>

fun hf_models_loop :: "network \<Rightarrow> nat \<Rightarrow> string \<Rightarrow> nat list \<Rightarrow> fault option \<Rightarrow> fault + string" where
  "hf_models_loop net attempt diff [] lastError =
     (case lastError of None \<Rightarrow> Inl AllModelsFailed | Some e \<Rightarrow> Inl e)"
| "hf_models_loop net attempt diff (model # models) lastError =
     (case net Huggingface attempt model (hf_prompt diff) of
        NoReply \<Rightarrow> hf_models_loop net attempt diff models (Some RequestFailed)
      | Reply status content \<Rightarrow>
          if \<not> ok status then hf_models_loop net attempt diff models (Some (ApiError status))
          else if text_or_empty content \<noteq> [] then Inr (text_or_empty content)
          else hf_models_loop net attempt diff models lastError)"

definition tryHuggingFaceModels :: "network \<Rightarrow> nat \<Rightarrow> string \<Rightarrow> DiffAnalysis \<Rightarrow> fault + string" where
  "tryHuggingFaceModels net attempt diff a = hf_models_loop net attempt diff [0, 1, 2] None"

text \<open>\<open>tryFreeHuggingFace\<close>: the loop over \<open>FREE_HF_MODELS\<close>.\<close>

fun free_models_loop :: "network \<Rightarrow> nat \<Rightarrow> string \<Rightarrow> nat list \<Rightarrow> fault + string" where
  "free_models_loop net attempt diff [] = Inl AllModelsFailed"
| "free_models_loop net attempt diff (model # models) =
     (case net Freehf attempt model (free_prompt diff) of
        NoReply \<Rightarrow> free_models_loop net attempt diff models
      | Reply status content \<Rightarrow>
          if ok status \<and> text_or_empty content \<noteq> [] then
            (let cleaned = hd (split_on NL
                   (trim (replace_first False [[Lit (free_prompt diff)]] [] (text_or_empty content))))
             in if length cleaned > 10 then Inr cleaned
                else free_models_loop net attempt diff models)
          else free_models_loop net attempt diff models)"

definition tryFreeHuggingFace :: "network \<Rightarrow> nat \<Rightarrow> string \<Rightarrow> DiffAnalysis \<Rightarrow> fault + string" where
  "tryFreeHuggingFace net attempt diff a = free_models_loop net attempt diff [0, 1, 2]"

text \<open>The function each launched task hands to the retry executor.\<close>

fun provider_call :: "provider \<Rightarrow> network \<Rightarrow> nat \<Rightarrow> string \<Rightarrow> DiffAnalysis \<Rightarrow> fault + string" where
  "provider_call Aiml = tryAIML"
| "provider_call Gemini = tryGemini"
| "provider_call Huggingface = tryHuggingFaceModels"
| "provider_call Freehf = tryFreeHuggingFace"
| "provider_call Openai = tryOpenAI"
| "provider_call Local = (\<lambda>net attempt diff a. Inr (generateLocalPatternBasedCommit diff a))"

section \<open>Retry executor\<close>

text \<open>
  \<open>fn attempt\<close> is what the call does at that attempt, \<open>elapsed attempt\<close> the measured
  \<open>responseTime\<close>, \<open>now\<close> the clock reading of a success report. The wait between two
  attempts changes no state.
\<close>

function executeWithRetry_from ::
  "nat \<Rightarrow> provider \<Rightarrow> (nat \<Rightarrow> fault + string) \<Rightarrow> (nat \<Rightarrow> int) \<Rightarrow> int \<Rightarrow> health_table
     \<Rightarrow> (fault + string) \<times> health_table" where
  "executeWithRetry_from attempt providerName fn elapsed now table =
     (if attempt \<le> MAX_RETRIES then
        (case fn attempt of
           Inr result \<Rightarrow>
             (Inr result, updateProviderHealth providerName True (Some (elapsed attempt)) now table)
         | Inl e \<Rightarrow>
             if attempt = MAX_RETRIES then
               (Inl e, updateProviderHealth providerName False None now table)
             else executeWithRetry_from (attempt + 1) providerName fn elapsed now table)
      else (Inl RetriesExhausted, table))"
  by pat_completeness auto
termination
  by (relation "measure (\<lambda>(attempt, providerName, fn, elapsed, now, table). Suc MAX_RETRIES - attempt)") auto

declare executeWithRetry_from.simps [simp del]

definition executeWithRetry ::
  "provider \<Rightarrow> (nat \<Rightarrow> fault + string) \<Rightarrow> (nat \<Rightarrow> int) \<Rightarrow> int \<Rightarrow> health_table
     \<Rightarrow> (fault + string) \<times> health_table" where
  "executeWithRetry providerName fn elapsed now table =
     executeWithRetry_from 1 providerName fn elapsed now table"

section \<open>Race coordinator and request handler\<close>

text \<open>
  Everything one request takes from outside: the environment variables, the network,
  the measured response times, the order in which the launched tasks settle, and the
  readings of the clock (at the cache lookup, at the start of the strategy, at each
  task's health report, at the coordinator's report, at the cache write and in
  \<open>cleanupCache\<close>).
\<close>

record World =
  process_env :: Env
  net_reply :: network
  elapsed :: "provider \<Rightarrow> nat \<Rightarrow> int"
  settle_order :: "provider list"
  now_lookup :: int
  now_strategy :: int
  now_report :: "provider \<Rightarrow> int"
  now_winner :: int
  now_store :: int
  now_sweep :: int

text \<open>
  The launched tasks all run to their end: the source cancels none of them. Each one
  reports to the health table of its own provider only, so the reports are applied
  here in launch order whatever the order in which the tasks settle.
\<close>

fun run_tasks ::
  "World \<Rightarrow> string \<Rightarrow> DiffAnalysis \<Rightarrow> provider list \<Rightarrow> health_table
     \<Rightarrow> (provider \<times> (fault + string)) list \<times> health_table" where
  "run_tasks w diff a [] table = ([], table)"
| "run_tasks w diff a (p # ps) table =
     (let (r, table1) = executeWithRetry p (\<lambda>attempt. provider_call p (net_reply w) attempt diff a)
                          (elapsed w p) (now_report w p) table;
          (rs, table2) = run_tasks w diff a ps table1
      in ((p, r) # rs, table2))"

definition race_order :: "World \<Rightarrow> provider list \<Rightarrow> provider list" where
  \<comment> \<open>the launched tasks in the order they settle; tasks the order does not list settle last\<close>
  "race_order w tasks =
     filter (\<lambda>p. p \<in> set tasks) (settle_order w) @ filter (\<lambda>p. p \<notin> set (settle_order w)) tasks"

definition fulfilled :: "(provider \<times> (fault + string)) list \<Rightarrow> provider \<Rightarrow> bool" where
  "fulfilled results p = (case map_of results p of Some (Inr text) \<Rightarrow> True | _ \<Rightarrow> False)"

text \<open>\<open>Promise.any\<close>: the first task to settle with a result, if there is one.\<close>

definition promise_any :: "World \<Rightarrow> (provider \<times> (fault + string)) list \<Rightarrow> (provider \<times> string) option" where
  "promise_any w results =
     (case filter (fulfilled results) (race_order w (map fst results)) of
        [] \<Rightarrow> None
      | p # _ \<Rightarrow> (case map_of results p of Some (Inr text) \<Rightarrow> Some (p, text) | _ \<Rightarrow> None))"

definition executeIntelligentAIStrategy ::
  "World \<Rightarrow> string \<Rightarrow> DiffAnalysis \<Rightarrow> Server \<Rightarrow> (string \<times> string) \<times> Server" where
  "executeIntelligentAIStrategy w diff a st =
     (let tasks = launched (process_env w) (now_strategy w) (providerHealth st) (providerCooldownUntil st);
          (results, table) = run_tasks w diff a tasks (providerHealth st)
      in case promise_any w results of
           Some (p, text) \<Rightarrow>
             ((text, provider_key p),
              st\<lparr>providerHealth := updateProviderHealth p True None (now_winner w) table\<rparr>)
         | None \<Rightarrow>
             ((generateLocalPatternBasedCommit diff a, ''local''), st\<lparr>providerHealth := table\<rparr>))"

text \<open>
  The request body: \<open>Unreadable\<close> when \<open>req.json()\<close> raises, otherwise the \<open>diff\<close>
  field, \<open>None\<close> when it is missing. The handler is modelled for a \<open>diff\<close> that is a
  string.
\<close>

datatype request = Unreadable | Body "string option"

record Answer =
  commitMessage :: string
  provider_used :: string
  cached :: bool
  answer_analysis :: DiffAnalysis

datatype http_response = Failure nat string | Success Answer

definition POST :: "World \<Rightarrow> request \<Rightarrow> Server \<Rightarrow> http_response \<times> Server" where
  "POST w req st =
     (case req of
        Unreadable \<Rightarrow> (Failure 500 ''Failed to generate commit message'', st)
      | Body None \<Rightarrow> (Failure 400 ''Git diff is required'', st)
      | Body (Some diff) \<Rightarrow>
          if diff = [] then (Failure 400 ''Git diff is required'', st)
          else
            (let cacheKey = generateCacheKey diff;
                 hit = (case responseCache st cacheKey of
                          None \<Rightarrow> None
                        | Some c \<Rightarrow> if now_lookup w - timestamp c < CACHE_TTL then Some c else None)
             in case hit of
                  Some c \<Rightarrow>
                    (Success \<lparr> commitMessage = response c, provider_used = ''cache'', cached = True,
                                answer_analysis = entry_analysis c \<rparr>, st)
                | None \<Rightarrow>
                    (let redacted = redactSecrets diff;
                         safeDiff = truncateDiff redacted 12000;
                         a = analyzeDiff safeDiff;
                         ((message, usedProvider), st1) = executeIntelligentAIStrategy w safeDiff a st;
                         st2 = st1\<lparr>responseCache := (responseCache st1)(cacheKey \<mapsto>
                                 \<lparr> response = message, timestamp = now_store w, entry_analysis = a \<rparr>)\<rparr>;
                         st3 = st2\<lparr>responseCache := cleanupCache (now_sweep w) (responseCache st2)\<rparr>
                     in (Success \<lparr> commitMessage = message, provider_used = usedProvider,
                                     cached = False, answer_analysis = a \<rparr>, st3))))"

section \<open>Overlapping requests\<close>

text \<open>
  The handler answers as soon as one task of its race has a result, and the other
  tasks keep running; a later request can start its own race meanwhile. So the tasks
  of several races can be in flight together. The events are: \<open>Launch\<close>, the launch
  phase of \<open>executeIntelligentAIStrategy\<close> for one request; \<open>Fulfil p t now won\<close>, a
  task of \<open>p\<close> in flight ends with a result after \<open>t\<close> milliseconds, and when \<open>won\<close>
  the coordinator of its race reports the success once more; \<open>Reject p\<close>, a task of
  \<open>p\<close> in flight ends after its last failed attempt.
\<close>

record Live = Server +
  in_flight :: "provider list"

datatype event = Launch Env int | Fulfil provider int int bool | Reject provider

fun step :: "event \<Rightarrow> Live \<Rightarrow> Live" where
  "step (Launch env nowTs) s =
     s\<lparr>in_flight := in_flight s @ launched env nowTs (providerHealth s) (providerCooldownUntil s)\<rparr>"
| "step (Fulfil p t now won) s =
     (if p \<in> set (in_flight s) then
        s\<lparr>in_flight := remove1 p (in_flight s),
          providerHealth :=
            (let table = updateProviderHealth p True (Some t) now (providerHealth s)
             in if won then updateProviderHealth p True None now table else table)\<rparr>
      else s)"
| "step (Reject p) s =
     (if p \<in> set (in_flight s) then
        s\<lparr>in_flight := remove1 p (in_flight s),
          providerHealth := updateProviderHealth p False None 0 (providerHealth s)\<rparr>
      else s)"

definition run :: "event list \<Rightarrow> Live \<Rightarrow> Live" where
  "run events s = foldl (\<lambda>s e. step e s) s events"

definition initialLive :: "int \<Rightarrow> Live" where
  "initialLive boot =
     \<lparr> providerHealth = initialHealth boot, providerCooldownUntil = Map.empty,
       responseCache = Map.empty, in_flight = [] \<rparr>"

section \<open>Concrete inputs\<close>

text \<open>A diff that matches both the feature pattern and the database pattern.\<close>

definition both_diff :: string where
  "both_diff = ''+const x = () => {}'' @ [NL] @ ''+SELECT 1''"

text \<open>
  An environment with the Gemini key only, and the live states reached from a fresh
  process when three Gemini tasks of overlapping requests fail: in \<open>tripped\<close> no
  Gemini task is left in flight, in \<open>tripped_in_flight\<close> a fourth one still runs.
\<close>

definition gemini_env :: Env where
  "gemini_env = \<lparr> AIML_API_KEY = [], GEMINI_API_KEY = ''g-key'', HUGGING_FACE_TOKEN = [], OPENAI_API_KEY = [] \<rparr>"

definition tripped :: Live where
  "tripped = run [Launch gemini_env 0, Launch gemini_env 1, Launch gemini_env 2,
                  Reject Gemini, Reject Gemini, Reject Gemini] (initialLive 0)"

definition tripped_in_flight :: Live where
  "tripped_in_flight = run [Launch gemini_env 0, Launch gemini_env 1, Launch gemini_env 2, Launch gemini_env 3,
                  Reject Gemini, Reject Gemini, Reject Gemini] (initialLive 0)"

text \<open>
  Worlds for single requests. In \<open>quiet_world\<close> only the Gemini key is set and no
  provider answers; \<open>gemini_answers\<close> lets Gemini answer every call with status 200
  and the given text field.
\<close>

definition quiet_world :: World where
  "quiet_world =
     \<lparr> process_env = gemini_env,
       net_reply = (\<lambda>p attempt model prompt. NoReply),
       elapsed = (\<lambda>p attempt. 120),
       settle_order = [],
       now_lookup = 1000, now_strategy = 1001, now_report = (\<lambda>p. 1500), now_winner = 1501,
       now_store = 1502, now_sweep = 1503 \<rparr>"

definition gemini_answers :: "string option \<Rightarrow> World" where
  "gemini_answers content =
     quiet_world\<lparr>net_reply := (\<lambda>p attempt model prompt. if p = Gemini then Reply 200 content else NoReply)\<rparr>"

definition small_diff :: string where
  "small_diff = ''+x''"

text \<open>
  An environment with the OpenAI key only, a world in which OpenAI answers every call
  with status 200 and a body without the text field, and one in which it answers
  every call with status 429.
\<close>

definition openai_env :: Env where
  "openai_env = \<lparr> AIML_API_KEY = [], GEMINI_API_KEY = [], HUGGING_FACE_TOKEN = [], OPENAI_API_KEY = ''sk-key'' \<rparr>"

definition openai_answers :: "reply \<Rightarrow> World" where
  "openai_answers r =
     quiet_world\<lparr>process_env := openai_env,
                 net_reply := (\<lambda>p attempt model prompt. if p = Openai then r else NoReply)\<rparr>"

text \<open>
  A server whose cache holds an entry for \<open>small_diff\<close> written at time 900 and a much
  older entry under another key; the readings of a later request; and two diffs that
  differ only in a secret.
\<close>

definition stocked :: Server where
  "stocked = (initialServer 0)\<lparr>responseCache :=
     [generateCacheKey small_diff \<mapsto>
        \<lparr> response = ''feat: add x'', timestamp = 900, entry_analysis = analyzeDiff small_diff \<rparr>,
      ''commit_0'' \<mapsto>
        \<lparr> response = ''chore: old'', timestamp = - 400000, entry_analysis = analyzeDiff small_diff \<rparr>]\<rparr>"

definition later :: "int \<Rightarrow> World \<Rightarrow> World" where
  "later t w = w\<lparr>now_lookup := t, now_strategy := t + 1, now_report := (\<lambda>p. t + 500),
                  now_winner := t + 501, now_store := t + 502, now_sweep := t + 503\<rparr>"

definition secret_diff_a :: string where
  "secret_diff_a = ''+key=aaaaaaaaaaaaaaaa''"

definition secret_diff_b :: string where
  "secret_diff_b = ''+key=bbbbbbbbbbbbbbbb''"

section \<open>Matching across a boundary\<close>

text \<open>
  When is a text \<open>u\<close> that ends in the character \<open>x\<close> matched the same way whether
  or not the text \<open>v\<close> follows it: no literal of the items can match \<open>x\<close>, no
  repetition can run from \<open>x\<close> into \<open>v\<close>, and what is left of the items once
  \<open>u\<close> is used up matches \<open>v\<close> as it matches the empty text.
\<close>

fun same_char :: "bool \<Rightarrow> char \<Rightarrow> char \<Rightarrow> bool" where
  "same_char ci p c = (if ci then toLowerChar p = toLowerChar c else p = c)"

fun item_ok :: "bool \<Rightarrow> char \<Rightarrow> string \<Rightarrow> item \<Rightarrow> bool" where
  "item_ok ci x v (Lit w) = (\<forall>ch \<in> set w. \<not> same_char ci ch x)"
| "item_ok ci x v (One k) = True"
| "item_ok ci x v (Opt k) = True"
| "item_ok ci x v (Many n k) = (\<not> in_cls k x \<or> (v \<noteq> [] \<and> \<not> in_cls k (hd v)))"
| "item_ok ci x v End = False"

fun boundary_ok :: "bool \<Rightarrow> char \<Rightarrow> string \<Rightarrow> item list \<Rightarrow> bool" where
  "boundary_ok ci x v [] = True"
| "boundary_ok ci x v (it # r) =
     (item_ok ci x v it
      \<and> residuals ci (it # r) v = map (\<lambda>s. s @ v) (residuals ci (it # r) [])
      \<and> boundary_ok ci x v r)"

section \<open>Concrete secrets\<close>

text \<open>
  The assignment of the secret, its value, and a diff in which a longer name carries
  the assignment.
\<close>

definition assignment :: string where
  "assignment = ''OPENAI_API_KEY=sk-aaaaaaaaaaaaaaaaaaaaaaaa''"

definition secret_value :: string where
  "secret_value = ''sk-aaaaaaaaaaaaaaaaaaaaaaaa''"

definition leaky_diff :: string where
  "leaky_diff = ''+secret=MY_OPENAI_API_KEY=sk-aaaaaaaaaaaaaaaaaaaaaaaa''"

section \<open>The handler around its await\<close>

text \<open>
  The handler awaits the race between its cache lookup and its cache write, and other
  requests run in the meantime; the lookup with its answer on a hit, and the write
  with the sweep that follows it, are each done without interruption.
  \<open>cache_lookup\<close> is the test the handler makes on \<open>responseCache.get(cacheKey)\<close>;
  \<open>store_answer\<close> is \<open>responseCache.set\<close> followed by \<open>cleanupCache\<close>, on the state
  as it is when the race is over. A \<open>Completion\<close> is a request that reaches its
  write: its clock readings, its diff, the message it stores and its analysis.
\<close>

definition cache_lookup :: "World \<Rightarrow> string \<Rightarrow> Server \<Rightarrow> CacheEntry option" where
  "cache_lookup w diff st =
     (case responseCache st (generateCacheKey diff) of
        None \<Rightarrow> None
      | Some c \<Rightarrow> if now_lookup w - timestamp c < CACHE_TTL then Some c else None)"

definition store_answer :: "World \<Rightarrow> string \<Rightarrow> string \<Rightarrow> DiffAnalysis \<Rightarrow> Server \<Rightarrow> Server" where
  "store_answer w diff message a st =
     st\<lparr>responseCache := cleanupCache (now_sweep w)
          ((responseCache st)(generateCacheKey diff \<mapsto>
             \<lparr> response = message, timestamp = now_store w, entry_analysis = a \<rparr>))\<rparr>"

record Completion =
  finished_world :: World
  finished_diff :: string
  finished_message :: string
  finished_analysis :: DiffAnalysis

definition finish_request :: "Completion \<Rightarrow> Server \<Rightarrow> Server" where
  "finish_request e st =
     store_answer (finished_world e) (finished_diff e) (finished_message e) (finished_analysis e) st"

definition finish_all :: "Completion list \<Rightarrow> Server \<Rightarrow> Server" where
  "finish_all es st = foldl (\<lambda>s e. finish_request e s) st es"

text \<open>
  A request for another diff that finishes at time 2102, and the readings of a request
  that looks the cache up at 900 and only writes at 5000.
\<close>

definition other_completion :: Completion where
  "other_completion =
     \<lparr> finished_world = later 1600 quiet_world, finished_diff = secret_diff_a,
       finished_message = ''feat: A'', finished_analysis = analyzeDiff ''+[REDACTED]'' \<rparr>"

definition slow_world :: World where
  "slow_world = (later 900 quiet_world)\<lparr>now_store := 5000, now_sweep := 5001\<rparr>"

section \<open>Properties of the request pipeline\<close>

subsection \<open>Classification by the first matching pattern\<close>

lemma changeType_analyzeDiff:
  "changeType (analyzeDiff diff) = fst (classify priorityOrder (toLowerCase diff) (Chore, 5 / 10))"
  by (simp add: analyzeDiff_def Let_def split: prod.splits)

lemma classify_first:
  "i < length ts \<Longrightarrow> pattern_matches (ts ! i) c \<Longrightarrow> \<forall>j<i. \<not> pattern_matches (ts ! j) c
   \<Longrightarrow> classify ts c acc = (ts ! i, min (9 / 10) (snd acc + 3 / 10))"
proof (induction ts arbitrary: i)
  case Nil
  then show ?case by simp
next
  case (Cons t ts)
  obtain ct conf where acc: "acc = (ct, conf)" by (cases acc)
  show ?case
  proof (cases i)
    case 0
    with Cons.prems show ?thesis by (simp add: acc)
  next
    case (Suc k)
    from Cons.prems Suc have "\<not> pattern_matches t c" by auto
    moreover have "classify ts c acc = (ts ! k, min (9 / 10) (snd acc + 3 / 10))"
    proof (rule Cons.IH)
      show "k < length ts" using Cons.prems Suc by simp
      show "pattern_matches (ts ! k) c" using Cons.prems Suc by simp
      show "\<forall>j<k. \<not> pattern_matches (ts ! j) c"
      proof (intro allI impI)
        fix j assume "j < k"
        then have "Suc j < i" using Suc by simp
        with Cons.prems have "\<not> pattern_matches ((t # ts) ! Suc j) c" by blast
        then show "\<not> pattern_matches (ts ! j) c" by simp
      qed
    qed
    ultimately show ?thesis using Suc by (simp add: acc)
  qed
qed

lemma classify_none:
  "\<forall>t \<in> set ts. \<not> pattern_matches t c \<Longrightarrow> classify ts c acc = acc"
proof (induction ts)
  case Nil
  then show ?case by simp
next
  case (Cons t ts)
  then show ?case by (cases acc) simp
qed

text \<open>
  Claim C4. The analyzer tries the category patterns in the fixed order feature, bugFix,
  security, performance, refactor, styling, test, docs, config, database, api; the
  first pattern that matches the lower-cased diff gives \<open>changeType\<close>, whatever the
  later patterns do. A diff matching both the feature and the database pattern is
  classified as feature; a diff matching no pattern is classified as chore.
\<close>

theorem analyzeDiff_first_match_wins:
  "priorityOrder = [Feature, BugFix, Security, Performance, Refactor, Styling, Test, Docs,
                    Config, Database, Api]
   \<and> (\<forall>i < length priorityOrder.
         pattern_matches (priorityOrder ! i) (toLowerCase diff)
         \<and> (\<forall>j < i. \<not> pattern_matches (priorityOrder ! j) (toLowerCase diff))
         \<longrightarrow> changeType (analyzeDiff diff) = priorityOrder ! i)
   \<and> (pattern_matches Feature (toLowerCase diff) \<and> pattern_matches Database (toLowerCase diff)
        \<longrightarrow> changeType (analyzeDiff diff) = Feature)
   \<and> ((\<forall>t. \<not> pattern_matches t (toLowerCase diff)) \<longrightarrow> changeType (analyzeDiff diff) = Chore)"
proof (intro conjI allI impI)
  show "priorityOrder = [Feature, BugFix, Security, Performance, Refactor, Styling, Test, Docs,
                    Config, Database, Api]"
    by (simp add: priorityOrder_def)
next
  fix i
  assume "i < length priorityOrder"
    and "pattern_matches (priorityOrder ! i) (toLowerCase diff)
         \<and> (\<forall>j < i. \<not> pattern_matches (priorityOrder ! j) (toLowerCase diff))"
  then show "changeType (analyzeDiff diff) = priorityOrder ! i"
    by (simp add: changeType_analyzeDiff classify_first)
next
  assume "pattern_matches Feature (toLowerCase diff) \<and> pattern_matches Database (toLowerCase diff)"
  then show "changeType (analyzeDiff diff) = Feature"
    by (simp add: changeType_analyzeDiff priorityOrder_def)
next
  assume "\<forall>t. \<not> pattern_matches t (toLowerCase diff)"
  then show "changeType (analyzeDiff diff) = Chore"
    by (simp add: changeType_analyzeDiff classify_none)
qed

lemma no_pattern_zzz: "\<not> pattern_matches t (toLowerCase ''zzz'')"
  by (cases t; hypsubst; code_simp)

theorem analyzeDiff_first_match_wins_witness:
  "pattern_matches Feature (toLowerCase both_diff) \<and> pattern_matches Database (toLowerCase both_diff)
   \<and> changeType (analyzeDiff both_diff) = Feature
   \<and> (9::nat) < length priorityOrder \<and> pattern_matches (priorityOrder ! 9) (toLowerCase ''select'')
   \<and> \<not> (\<exists>j < 9. pattern_matches (priorityOrder ! j) (toLowerCase ''select''))
   \<and> changeType (analyzeDiff ''select'') = Database
   \<and> (\<forall>t. \<not> pattern_matches t (toLowerCase ''zzz'')) \<and> changeType (analyzeDiff ''zzz'') = Chore"
proof -
  have f: "pattern_matches Feature (toLowerCase both_diff)" by code_simp
  have d: "pattern_matches Database (toLowerCase both_diff)" by code_simp
  have n: "(9::nat) < length priorityOrder" by (simp add: priorityOrder_def)
  have s: "pattern_matches (priorityOrder ! 9) (toLowerCase ''select'')" by code_simp
  have e: "\<forall>j < 9. \<not> pattern_matches (priorityOrder ! j) (toLowerCase ''select'')"
  proof (intro allI impI)
    fix j :: nat assume "j < 9"
    then consider "j = 0" | "j = 1" | "j = 2" | "j = 3" | "j = 4" | "j = 5" | "j = 6" | "j = 7" | "j = 8"
      by linarith
    then show "\<not> pattern_matches (priorityOrder ! j) (toLowerCase ''select'')"
      by cases (simp_all, code_simp+)
  qed
  have z: "\<forall>t. \<not> pattern_matches t (toLowerCase ''zzz'')" using no_pattern_zzz by blast
  from analyzeDiff_first_match_wins [of both_diff] f d
  have 1: "changeType (analyzeDiff both_diff) = Feature" by blast
  from analyzeDiff_first_match_wins [of "''select''"] n s e
  have 2: "changeType (analyzeDiff ''select'') = priorityOrder ! 9" by blast
  have 3: "priorityOrder ! 9 = Database" by (simp add: priorityOrder_def)
  from analyzeDiff_first_match_wins [of "''zzz''"] z
  have 4: "changeType (analyzeDiff ''zzz'') = Chore" by blast
  have e': "\<not> (\<exists>j < 9. pattern_matches (priorityOrder ! j) (toLowerCase ''select''))"
    using e by blast
  show ?thesis using f d n s e' z 1 2 3 4 by simp
qed

subsection \<open>Circuit breaker\<close>

lemma launched_isHealthy:
  "p \<in> set (launched env nowTs table cooldown) \<Longrightarrow> isHealthy (table p)"
  by (auto simp: launched_def split: if_splits)

lemma updateProviderHealth_other:
  "q \<noteq> p \<Longrightarrow> updateProviderHealth p success rt now table q = table q"
  by (simp add: updateProviderHealth_def Let_def)

lemma updateProviderHealth_failure_unhealthy:
  "\<not> isHealthy (table q) \<Longrightarrow> \<not> isHealthy (updateProviderHealth p False rt now table q)"
  by (cases "q = p") (auto simp: updateProviderHealth_def Let_def)

lemma step_keeps_unhealthy:
  assumes "\<not> isHealthy (providerHealth s p)" and "\<forall>t now won. e \<noteq> Fulfil p t now won"
  shows "\<not> isHealthy (providerHealth (step e s) p)"
proof (cases e)
  case (Launch env nowTs)
  with assms show ?thesis by simp
next
  case (Fulfil q t now won)
  with assms have "q \<noteq> p" by auto
  with assms Fulfil show ?thesis by (simp add: updateProviderHealth_other Let_def)
next
  case (Reject q)
  with assms show ?thesis by (simp add: updateProviderHealth_failure_unhealthy)
qed

lemma run_Nil [simp]: "run [] s = s"
  by (simp add: run_def)

lemma run_Cons [simp]: "run (e # es) s = run es (step e s)"
  by (simp add: run_def)

lemma run_keeps_unhealthy:
  "\<not> isHealthy (providerHealth s p) \<Longrightarrow> \<forall>t now won. Fulfil p t now won \<notin> set events
   \<Longrightarrow> \<not> isHealthy (providerHealth (run events s) p)"
proof (induction events arbitrary: s)
  case Nil
  then show ?case by simp
next
  case (Cons e es)
  from Cons.prems have "\<forall>t now won. e \<noteq> Fulfil p t now won" by auto
  with Cons.prems have "\<not> isHealthy (providerHealth (step e s) p)"
    by (intro step_keeps_unhealthy)
  moreover from Cons.prems have "\<forall>t now won. Fulfil p t now won \<notin> set es" by auto
  ultimately show ?case using Cons.IH by simp
qed

text \<open>
  Claim C5. A reported success sets \<open>consecutiveFailures\<close> to 0 and \<open>isHealthy\<close> to
  true. A reported failure adds one to \<open>consecutiveFailures\<close>, and when the count
  reaches the threshold 3 \<open>isHealthy\<close> is set to false. From then on, as long as no
  success is reported for the provider, it stays unhealthy and no race launches it.
\<close>

theorem circuit_breaker:
  "consecutiveFailures (updateProviderHealth p True rt now table p) = 0
   \<and> isHealthy (updateProviderHealth p True rt now table p)
   \<and> CIRCUIT_BREAKER_THRESHOLD = 3
   \<and> consecutiveFailures (updateProviderHealth p False rt now table p) = consecutiveFailures (table p) + 1
   \<and> (consecutiveFailures (updateProviderHealth p False rt now table p) \<ge> CIRCUIT_BREAKER_THRESHOLD
        \<longrightarrow> \<not> isHealthy (updateProviderHealth p False rt now table p))
   \<and> (\<not> isHealthy (providerHealth s p) \<and> (\<forall>t now won. Fulfil p t now won \<notin> set events)
        \<longrightarrow> \<not> isHealthy (providerHealth (run events s) p)
            \<and> (\<forall>env nowTs. p \<notin> set (launched env nowTs (providerHealth (run events s))
                                       (providerCooldownUntil (run events s)))))"
proof (intro conjI impI)
  assume a: "\<not> isHealthy (providerHealth s p) \<and> (\<forall>t now won. Fulfil p t now won \<notin> set events)"
  then show u: "\<not> isHealthy (providerHealth (run events s) p)"
    by (simp add: run_keeps_unhealthy)
  then show "\<forall>env nowTs. p \<notin> set (launched env nowTs (providerHealth (run events s))
                                       (providerCooldownUntil (run events s)))"
    using launched_isHealthy by blast
qed (simp_all add: updateProviderHealth_def Let_def CIRCUIT_BREAKER_THRESHOLD_def)

lemmas live_eval = tripped_def tripped_in_flight_def initialLive_def gemini_env_def launched_def not_cooling_def
  updateProviderHealth_def Let_def CIRCUIT_BREAKER_THRESHOLD_def

lemma tripped_unhealthy: "\<not> isHealthy (providerHealth tripped Gemini)"
  by (simp add: live_eval)

lemma tripped_failures: "consecutiveFailures (providerHealth tripped Gemini) = 3"
  by (simp add: live_eval)

theorem circuit_breaker_witness:
  "consecutiveFailures (updateProviderHealth Gemini False None 0
       (updateProviderHealth Gemini False None 0 (updateProviderHealth Gemini False None 0 (initialHealth 0))) Gemini)
     \<ge> CIRCUIT_BREAKER_THRESHOLD
   \<and> \<not> isHealthy (updateProviderHealth Gemini False None 0
       (updateProviderHealth Gemini False None 0 (updateProviderHealth Gemini False None 0 (initialHealth 0))) Gemini)
   \<and> \<not> isHealthy (providerHealth tripped Gemini)
   \<and> (\<forall>t now won. Fulfil Gemini t now won \<notin> set [Launch gemini_env 5, Reject Freehf, Launch gemini_env 6])
   \<and> Gemini \<notin> set (launched gemini_env 7
        (providerHealth (run [Launch gemini_env 5, Reject Freehf, Launch gemini_env 6] tripped))
        (providerCooldownUntil (run [Launch gemini_env 5, Reject Freehf, Launch gemini_env 6] tripped)))"
proof -
  let ?t2 = "updateProviderHealth Gemini False None 0 (updateProviderHealth Gemini False None 0 (initialHealth 0))"
  have 1: "consecutiveFailures (updateProviderHealth Gemini False None 0 ?t2 Gemini) \<ge> CIRCUIT_BREAKER_THRESHOLD"
    by (simp add: updateProviderHealth_def Let_def CIRCUIT_BREAKER_THRESHOLD_def)
  have 2: "\<not> isHealthy (providerHealth tripped Gemini)" by (rule tripped_unhealthy)
  have 3: "\<forall>t now won. Fulfil Gemini t now won \<notin> set [Launch gemini_env 5, Reject Freehf, Launch gemini_env 6]"
    by simp
  from circuit_breaker [of Gemini None 0 ?t2 tripped "[Launch gemini_env 5, Reject Freehf, Launch gemini_env 6]"] 1 2 3
  show ?thesis by blast
qed

subsection \<open>Recovery of a tripped provider\<close>

lemma step_keeps_idle_unhealthy:
  assumes "\<not> isHealthy (providerHealth s p)" and "p \<notin> set (in_flight s)"
  shows "\<not> isHealthy (providerHealth (step e s) p) \<and> p \<notin> set (in_flight (step e s))"
proof (cases e)
  case (Launch env nowTs)
  with assms launched_isHealthy [of p env nowTs "providerHealth s" "providerCooldownUntil s"]
  show ?thesis by auto
next
  case (Fulfil q t now won)
  show ?thesis
  proof (cases "q \<in> set (in_flight s)")
    case True
    with assms have "q \<noteq> p" by auto
    with assms Fulfil True show ?thesis
      by (auto simp: updateProviderHealth_other Let_def dest: notin_set_remove1)
  next
    case False
    with assms Fulfil show ?thesis by simp
  qed
next
  case (Reject q)
  with assms show ?thesis
    by (auto simp: updateProviderHealth_failure_unhealthy dest: notin_set_remove1)
qed

lemma run_keeps_idle_unhealthy:
  "\<not> isHealthy (providerHealth s p) \<Longrightarrow> p \<notin> set (in_flight s)
   \<Longrightarrow> \<not> isHealthy (providerHealth (run events s) p) \<and> p \<notin> set (in_flight (run events s))"
proof (induction events arbitrary: s)
  case Nil
  then show ?case by simp
next
  case (Cons e es)
  from step_keeps_idle_unhealthy [OF Cons.prems]
  have "\<not> isHealthy (providerHealth (step e s) p)" and "p \<notin> set (in_flight (step e s))"
    by simp_all
  then show ?case using Cons.IH by simp
qed

lemma step_recovery_needs_task:
  assumes "\<not> isHealthy (providerHealth s p)" and "isHealthy (providerHealth (step e s) p)"
  shows "(\<exists>t now won. e = Fulfil p t now won) \<and> p \<in> set (in_flight s)"
proof -
  from assms step_keeps_unhealthy [of s p e] obtain t now won where e: "e = Fulfil p t now won"
    by blast
  with assms have "p \<in> set (in_flight s)" by (cases "p \<in> set (in_flight s)") auto
  with e show ?thesis by blast
qed

text \<open>
  Claim C10, as amended. While a provider's \<open>isHealthy\<close> flag is false no race launches
  it. The flag can only become true again by the success of a task of that provider
  that is still in flight, launched before the flag fell. When no such task is in
  flight, the flag stays false, the provider is never launched and never has a task in
  flight, whatever happens afterwards.
\<close>

theorem unhealthy_until_task_in_flight_succeeds:
  "(\<not> isHealthy (providerHealth s p)
      \<longrightarrow> (\<forall>env nowTs. p \<notin> set (launched env nowTs (providerHealth s) (providerCooldownUntil s))))
   \<and> (\<not> isHealthy (providerHealth s p) \<and> isHealthy (providerHealth (step e s) p)
      \<longrightarrow> (\<exists>t now won. e = Fulfil p t now won) \<and> p \<in> set (in_flight s))
   \<and> (\<not> isHealthy (providerHealth s p) \<and> p \<notin> set (in_flight s)
      \<longrightarrow> \<not> isHealthy (providerHealth (run events s) p)
          \<and> p \<notin> set (in_flight (run events s))
          \<and> (\<forall>env nowTs. p \<notin> set (launched env nowTs (providerHealth (run events s))
                                     (providerCooldownUntil (run events s)))))"
proof (intro conjI impI)
  assume "\<not> isHealthy (providerHealth s p)"
  then show "\<forall>env nowTs. p \<notin> set (launched env nowTs (providerHealth s) (providerCooldownUntil s))"
    using launched_isHealthy by blast
next
  assume "\<not> isHealthy (providerHealth s p) \<and> isHealthy (providerHealth (step e s) p)"
  then show "\<exists>t now won. e = Fulfil p t now won" and "p \<in> set (in_flight s)"
    using step_recovery_needs_task by blast+
next
  assume a: "\<not> isHealthy (providerHealth s p) \<and> p \<notin> set (in_flight s)"
  then show u: "\<not> isHealthy (providerHealth (run events s) p)"
    and "p \<notin> set (in_flight (run events s))"
    using run_keeps_idle_unhealthy by blast+
  from u show "\<forall>env nowTs. p \<notin> set (launched env nowTs (providerHealth (run events s))
                                     (providerCooldownUntil (run events s)))"
    using launched_isHealthy by blast
qed

lemma tripped_idle: "Gemini \<notin> set (in_flight tripped)"
  by (simp add: live_eval)

text \<open>
  The claim as stated fails: four overlapping requests each launch a Gemini task, three
  of the tasks fail and open the circuit, then the fourth succeeds. Its success report
  sets \<open>isHealthy\<close> back to true and the next race launches Gemini again.
\<close>

theorem unhealthy_provider_recovers:
  "\<not> isHealthy (providerHealth tripped_in_flight Gemini)
   \<and> isHealthy (providerHealth (step (Fulfil Gemini 7000 7000 False) tripped_in_flight) Gemini)
   \<and> Gemini \<in> set (launched gemini_env 8000
        (providerHealth (step (Fulfil Gemini 7000 7000 False) tripped_in_flight))
        (providerCooldownUntil (step (Fulfil Gemini 7000 7000 False) tripped_in_flight)))"
  by (simp add: live_eval)

theorem unhealthy_until_task_in_flight_succeeds_witness:
  "\<not> isHealthy (providerHealth tripped Gemini) \<and> Gemini \<notin> set (in_flight tripped)
   \<and> Gemini \<notin> set (launched gemini_env 4 (providerHealth tripped) (providerCooldownUntil tripped))
   \<and> \<not> isHealthy (providerHealth (run [Launch gemini_env 5, Fulfil Freehf 30 6 True, Fulfil Gemini 40 7 True] tripped) Gemini)
   \<and> Gemini \<notin> set (launched gemini_env 8
        (providerHealth (run [Launch gemini_env 5, Fulfil Freehf 30 6 True, Fulfil Gemini 40 7 True] tripped))
        (providerCooldownUntil (run [Launch gemini_env 5, Fulfil Freehf 30 6 True, Fulfil Gemini 40 7 True] tripped)))
   \<and> \<not> isHealthy (providerHealth tripped_in_flight Gemini)
   \<and> isHealthy (providerHealth (step (Fulfil Gemini 7000 7000 False) tripped_in_flight) Gemini)
   \<and> Gemini \<in> set (in_flight tripped_in_flight)"
proof -
  have 1: "\<not> isHealthy (providerHealth tripped Gemini)" by (rule tripped_unhealthy)
  have 2: "Gemini \<notin> set (in_flight tripped)" by (rule tripped_idle)
  have 3: "\<not> isHealthy (providerHealth tripped_in_flight Gemini)" by (simp add: live_eval)
  have 4: "isHealthy (providerHealth (step (Fulfil Gemini 7000 7000 False) tripped_in_flight) Gemini)"
    by (simp add: live_eval)
  from unhealthy_until_task_in_flight_succeeds
         [of tripped Gemini _ "[Launch gemini_env 5, Fulfil Freehf 30 6 True, Fulfil Gemini 40 7 True]"] 1 2
       unhealthy_until_task_in_flight_succeeds
         [of tripped_in_flight Gemini "Fulfil Gemini 7000 7000 False"] 3 4
  show ?thesis by blast
qed

subsection \<open>Health reports of one race\<close>

lemma executeWithRetry_from_cases:
  "(\<exists>msg k. executeWithRetry_from attempt p fn el now table =
        (Inr msg, updateProviderHealth p True (Some (el k)) now table))
   \<or> (\<exists>e. executeWithRetry_from attempt p fn el now table =
        (Inl e, updateProviderHealth p False None now table))
   \<or> (\<exists>e. executeWithRetry_from attempt p fn el now table = (Inl e, table))"
proof (induction attempt p fn el now table rule: executeWithRetry_from.induct)
  case (1 attempt p fn el now table)
  show ?case
  proof (cases "attempt \<le> MAX_RETRIES")
    case False
    then show ?thesis by (subst executeWithRetry_from.simps) simp
  next
    case True
    show ?thesis
    proof (cases "fn attempt")
      case (Inr msg)
      with True have "executeWithRetry_from attempt p fn el now table =
        (Inr msg, updateProviderHealth p True (Some (el attempt)) now table)"
        by (subst executeWithRetry_from.simps) simp
      then show ?thesis by blast
    next
      case (Inl e)
      show ?thesis
      proof (cases "attempt = MAX_RETRIES")
        case True
        with Inl have "executeWithRetry_from attempt p fn el now table =
          (Inl e, updateProviderHealth p False None now table)"
          by (subst executeWithRetry_from.simps) simp
        then show ?thesis by blast
      next
        case False
        with True Inl
        have "executeWithRetry_from attempt p fn el now table =
              executeWithRetry_from (attempt + 1) p fn el now table"
          by (subst executeWithRetry_from.simps) simp
        with "1.IH" [OF True Inl False] show ?thesis by simp
      qed
    qed
  qed
qed

lemma executeWithRetry_cases:
  "(\<exists>msg k. executeWithRetry p fn el now table =
        (Inr msg, updateProviderHealth p True (Some (el k)) now table))
   \<or> (\<exists>e. executeWithRetry p fn el now table =
        (Inl e, updateProviderHealth p False None now table))
   \<or> (\<exists>e. executeWithRetry p fn el now table = (Inl e, table))"
  unfolding executeWithRetry_def by (rule executeWithRetry_from_cases)

lemma executeWithRetry_other:
  "q \<noteq> p \<Longrightarrow> snd (executeWithRetry p fn el now table) q = table q"
  using executeWithRetry_cases [of p fn el now table]
  by (auto simp: updateProviderHealth_other)

lemma executeWithRetry_success:
  "fst (executeWithRetry p fn el now table) = Inr msg \<Longrightarrow>
   \<exists>k. snd (executeWithRetry p fn el now table) = updateProviderHealth p True (Some (el k)) now table"
  using executeWithRetry_cases [of p fn el now table] by auto

lemma updateProviderHealth_cong:
  "table1 p = table2 p \<Longrightarrow>
   updateProviderHealth p success rt now table1 p = updateProviderHealth p success rt now table2 p"
  by (simp add: updateProviderHealth_def Let_def)

lemma run_tasks_Cons:
  "run_tasks w diff a (p # ps) table =
     ((p, fst (executeWithRetry p (\<lambda>attempt. provider_call p (net_reply w) attempt diff a)
                 (elapsed w p) (now_report w p) table))
        # fst (run_tasks w diff a ps
                 (snd (executeWithRetry p (\<lambda>attempt. provider_call p (net_reply w) attempt diff a)
                         (elapsed w p) (now_report w p) table))),
      snd (run_tasks w diff a ps
             (snd (executeWithRetry p (\<lambda>attempt. provider_call p (net_reply w) attempt diff a)
                     (elapsed w p) (now_report w p) table))))"
  by (simp add: Let_def split: prod.splits)

lemma run_tasks_fst: "map fst (fst (run_tasks w diff a ps table)) = ps"
  by (induction ps arbitrary: table) (simp_all add: run_tasks_Cons del: run_tasks.simps(2))

lemma run_tasks_untouched:
  "q \<notin> set ps \<Longrightarrow> snd (run_tasks w diff a ps table) q = table q"
  by (induction ps arbitrary: table)
     (simp_all add: run_tasks_Cons executeWithRetry_other del: run_tasks.simps(2))

lemma run_tasks_success:
  "distinct ps \<Longrightarrow> map_of (fst (run_tasks w diff a ps table)) p = Some (Inr msg) \<Longrightarrow>
   \<exists>k. snd (run_tasks w diff a ps table) p =
         updateProviderHealth p True (Some (elapsed w p k)) (now_report w p) table p"
proof (induction ps arbitrary: table)
  case Nil
  then show ?case by simp
next
  case (Cons q ps)
  let ?e = "executeWithRetry q (\<lambda>attempt. provider_call q (net_reply w) attempt diff a)
              (elapsed w q) (now_report w q) table"
  have unfold: "run_tasks w diff a (q # ps) table =
      ((q, fst ?e) # fst (run_tasks w diff a ps (snd ?e)), snd (run_tasks w diff a ps (snd ?e)))"
    by (rule run_tasks_Cons)
  show ?case
  proof (cases "q = p")
    case True
    from Cons.prems(2) have "fst ?e = Inr msg" unfolding unfold using True by simp
    from executeWithRetry_success [OF this] obtain k where
      k: "snd ?e = updateProviderHealth q True (Some (elapsed w q k)) (now_report w q) table" ..
    from Cons.prems(1) True have "p \<notin> set ps" by simp
    then have "snd (run_tasks w diff a ps (snd ?e)) p = snd ?e p" by (rule run_tasks_untouched)
    with k True have "snd (run_tasks w diff a (q # ps) table) p =
        updateProviderHealth p True (Some (elapsed w p k)) (now_report w p) table p"
      unfolding unfold by simp
    then show ?thesis ..
  next
    case False
    from Cons.prems(2) have m: "map_of (fst (run_tasks w diff a ps (snd ?e))) p = Some (Inr msg)"
      unfolding unfold using False by simp
    from Cons.prems(1) have d: "distinct ps" by simp
    from Cons.IH [OF d m] obtain k where
      k: "snd (run_tasks w diff a ps (snd ?e)) p =
         updateProviderHealth p True (Some (elapsed w p k)) (now_report w p) (snd ?e) p" ..
    have "snd ?e p = table p" using False by (simp add: executeWithRetry_other)
    then have "updateProviderHealth p True (Some (elapsed w p k)) (now_report w p) (snd ?e) p =
         updateProviderHealth p True (Some (elapsed w p k)) (now_report w p) table p"
      by (rule updateProviderHealth_cong)
    with k have "snd (run_tasks w diff a (q # ps) table) p =
         updateProviderHealth p True (Some (elapsed w p k)) (now_report w p) table p"
      unfolding unfold by simp
    then show ?thesis ..
  qed
qed

lemma launched_distinct: "distinct (launched env nowTs table cooldown)"
  by (simp add: launched_def)

lemma launched_not_Local: "Local \<notin> set (launched env nowTs table cooldown)"
  by (simp add: launched_def)

lemma fulfilled_iff: "fulfilled results p \<longleftrightarrow> (\<exists>msg. map_of results p = Some (Inr msg))"
  by (simp add: fulfilled_def split: option.splits sum.splits)

lemma promise_any_Some:
  assumes "promise_any w results = Some (p, msg)"
  shows "map_of results p = Some (Inr msg)"
proof (cases "filter (fulfilled results) (race_order w (map fst results))")
  case Nil
  with assms show ?thesis by (simp add: promise_any_def)
next
  case (Cons q qs)
  with assms show ?thesis
    by (cases "map_of results q")
       (auto simp: promise_any_def split: sum.splits)
qed

lemma promise_any_None:
  assumes "promise_any w results = None"
  shows "\<forall>p \<in> set (map fst results). \<not> fulfilled results p"
proof (cases "filter (fulfilled results) (race_order w (map fst results))")
  case Nil
  then have "\<forall>p \<in> set (race_order w (map fst results)). \<not> fulfilled results p"
    by (simp add: filter_empty_conv)
  moreover have "set (map fst results) \<subseteq> set (race_order w (map fst results))"
    unfolding race_order_def by auto
  ultimately show ?thesis by blast
next
  case (Cons q qs)
  then have "q \<in> set (filter (fulfilled results) (race_order w (map fst results)))" by simp
  then have "fulfilled results q" by simp
  then obtain msg where "map_of results q = Some (Inr msg)" unfolding fulfilled_iff ..
  with Cons assms show ?thesis by (simp add: promise_any_def)
qed

lemma double_success_rate:
  "successRate (updateProviderHealth p True rt2 now2 (updateProviderHealth p True rt1 now1 table) p)
     = min 1 (successRate (table p) + 2 / 100)"
  by (simp add: updateProviderHealth_def Let_def min_def)

lemma single_success_rate:
  "successRate (updateProviderHealth p True rt now table p) = min 1 (successRate (table p) + 1 / 100)"
  by (simp add: updateProviderHealth_def Let_def)

lemma provider_key_local: "provider_key p = ''local'' \<longleftrightarrow> p = Local"
  by (cases p) simp_all

lemma executeIntelligentAIStrategy_unfold:
  "executeIntelligentAIStrategy w diff a st =
     (case promise_any w (fst (run_tasks w diff a
               (launched (process_env w) (now_strategy w) (providerHealth st) (providerCooldownUntil st))
               (providerHealth st))) of
        Some (p, msg) \<Rightarrow>
          ((msg, provider_key p),
           st\<lparr>providerHealth := updateProviderHealth p True None (now_winner w)
              (snd (run_tasks w diff a
               (launched (process_env w) (now_strategy w) (providerHealth st) (providerCooldownUntil st))
               (providerHealth st)))\<rparr>)
      | None \<Rightarrow>
          ((generateLocalPatternBasedCommit diff a, ''local''),
           st\<lparr>providerHealth := snd (run_tasks w diff a
               (launched (process_env w) (now_strategy w) (providerHealth st) (providerCooldownUntil st))
               (providerHealth st))\<rparr>))"
  by (simp add: executeIntelligentAIStrategy_def Let_def case_prod_beta)

text \<open>
  Claim C9. When a provider wins the race, its success is reported twice in that
  request: by the retry executor, with the measured response time, and again by the
  coordinator, without one. So its \<open>successRate\<close> goes up by 0.02, capped at 1,
  where a single report adds 0.01, and \<open>lastSuccess\<close> is written twice, the
  coordinator's reading last. The rates are exact rationals here.
\<close>

theorem winner_success_reported_twice:
  assumes "executeIntelligentAIStrategy w diff a st = ((msg, key), st')" and "key \<noteq> ''local''"
  shows "\<exists>p k. key = provider_key p
           \<and> p \<in> set (launched (process_env w) (now_strategy w) (providerHealth st) (providerCooldownUntil st))
           \<and> providerHealth st' p =
               updateProviderHealth p True None (now_winner w)
                 (updateProviderHealth p True (Some (elapsed w p k)) (now_report w p) (providerHealth st)) p
           \<and> successRate (providerHealth st' p) = min 1 (successRate (providerHealth st p) + 2 / 100)
           \<and> successRate (updateProviderHealth p True (Some (elapsed w p k)) (now_report w p) (providerHealth st) p)
               = min 1 (successRate (providerHealth st p) + 1 / 100)
           \<and> lastSuccess (providerHealth st' p) = now_winner w"
proof -
  let ?tasks = "launched (process_env w) (now_strategy w) (providerHealth st) (providerCooldownUntil st)"
  let ?run = "run_tasks w diff a ?tasks (providerHealth st)"
  have "promise_any w (fst ?run) \<noteq> None"
  proof
    assume "promise_any w (fst ?run) = None"
    with assms(1) have "key = ''local''" by (simp add: executeIntelligentAIStrategy_unfold)
    with assms(2) show False by simp
  qed
  then obtain p m where win0: "promise_any w (fst ?run) = Some (p, m)" by auto
  with assms(1) have "m = msg" and key: "key = provider_key p"
    and st': "st' = st\<lparr>providerHealth := updateProviderHealth p True None (now_winner w) (snd ?run)\<rparr>"
    by (simp_all add: executeIntelligentAIStrategy_unfold)
  with win0 have win: "promise_any w (fst ?run) = Some (p, msg)" by simp
  from promise_any_Some [OF win] have m: "map_of (fst ?run) p = Some (Inr msg)" .
  then have "(p, Inr msg) \<in> set (fst ?run)" by (rule map_of_SomeD)
  then have "p \<in> set (map fst (fst ?run))" by force
  then have mem: "p \<in> set ?tasks" by (simp add: run_tasks_fst)
  from run_tasks_success [OF launched_distinct m] obtain k where
    k: "snd ?run p = updateProviderHealth p True (Some (elapsed w p k)) (now_report w p) (providerHealth st) p" ..
  have "updateProviderHealth p True None (now_winner w) (snd ?run) p =
      updateProviderHealth p True None (now_winner w)
        (updateProviderHealth p True (Some (elapsed w p k)) (now_report w p) (providerHealth st)) p"
    using k by (rule updateProviderHealth_cong)
  then have h: "providerHealth st' p =
      updateProviderHealth p True None (now_winner w)
        (updateProviderHealth p True (Some (elapsed w p k)) (now_report w p) (providerHealth st)) p"
    using st' by simp
  have "lastSuccess (providerHealth st' p) = now_winner w"
    using st' by (simp add: updateProviderHealth_def Let_def)
  with key mem h show ?thesis
    by (intro exI [of _ p] exI [of _ k]) (simp add: double_success_rate single_success_rate)
qed

lemma gemini_wins:
  "fst (executeIntelligentAIStrategy (gemini_answers (Some ''feat: add x'')) small_diff (analyzeDiff small_diff)
        (initialServer 0)) = (''feat: add x'', ''gemini'')"
  by code_simp

theorem winner_success_reported_twice_witness:
  "snd (fst (executeIntelligentAIStrategy (gemini_answers (Some ''feat: add x'')) small_diff
               (analyzeDiff small_diff) (initialServer 0))) \<noteq> ''local''
   \<and> (\<exists>p k. ''gemini'' = provider_key p
         \<and> successRate (providerHealth (snd (executeIntelligentAIStrategy (gemini_answers (Some ''feat: add x''))
               small_diff (analyzeDiff small_diff) (initialServer 0))) p)
             = min 1 (successRate (providerHealth (initialServer 0) p) + 2 / 100)
         \<and> lastSuccess (providerHealth (snd (executeIntelligentAIStrategy (gemini_answers (Some ''feat: add x''))
               small_diff (analyzeDiff small_diff) (initialServer 0))) p) = 1501)"
proof -
  let ?w = "gemini_answers (Some ''feat: add x'')"
  let ?E = "executeIntelligentAIStrategy ?w small_diff (analyzeDiff small_diff) (initialServer 0)"
  have e: "?E = ((''feat: add x'', ''gemini''), snd ?E)"
    using gemini_wins by (simp add: prod_eq_iff)
  have n: "''gemini'' \<noteq> ''local''" by simp
  have t: "now_winner ?w = 1501" by (simp add: gemini_answers_def quiet_world_def)
  from winner_success_reported_twice [OF e n] t gemini_wins show ?thesis by auto
qed

subsection \<open>The fallback path\<close>

lemma template_text_nonempty: "subject \<noteq> [] \<Longrightarrow> template_text subject bullets \<noteq> []"
  by (simp add: template_text_def)

lemma generateLocalPatternBasedCommit_nonempty: "generateLocalPatternBasedCommit diff a \<noteq> []"
  by (cases "changeType a")
     (simp_all add: generateLocalPatternBasedCommit_def generateFeatureCommit_def
        generateBugFixCommit_def generateRefactorCommit_def generateStylingCommit_def
        generateTestCommit_def generateDocsCommit_def generateConfigCommit_def
        generateDatabaseCommit_def generateApiCommit_def generateSecurityCommit_def
        generatePerformanceCommit_def generateChoreCommit_def template_text_def Let_def)

lemma strategy_falls_back:
  assumes "\<forall>p \<in> set (launched (process_env w) (now_strategy w) (providerHealth st) (providerCooldownUntil st)).
             \<not> fulfilled (fst (run_tasks w diff a
               (launched (process_env w) (now_strategy w) (providerHealth st) (providerCooldownUntil st))
               (providerHealth st))) p"
  shows "fst (executeIntelligentAIStrategy w diff a st) = (generateLocalPatternBasedCommit diff a, ''local'')"
proof -
  let ?run = "run_tasks w diff a
               (launched (process_env w) (now_strategy w) (providerHealth st) (providerCooldownUntil st))
               (providerHealth st)"
  have "promise_any w (fst ?run) = None"
  proof (cases "promise_any w (fst ?run)")
    case None
    then show ?thesis .
  next
    case (Some pm)
    obtain p m where "pm = (p, m)" by (cases pm)
    with Some have s: "map_of (fst ?run) p = Some (Inr m)" by (simp add: promise_any_Some)
    then have "(p, Inr m) \<in> set (fst ?run)" by (rule map_of_SomeD)
    then have "p \<in> set (map fst (fst ?run))" by force
    then have "p \<in> set (launched (process_env w) (now_strategy w) (providerHealth st) (providerCooldownUntil st))"
      by (simp add: run_tasks_fst)
    with assms have "\<not> fulfilled (fst ?run) p" by blast
    with s show ?thesis by (simp add: fulfilled_iff)
  qed
  then show ?thesis by (simp add: executeIntelligentAIStrategy_unfold)
qed

lemma POST_answers_every_diff:
  "diff \<noteq> [] \<Longrightarrow> \<exists>ans. fst (POST w (Body (Some diff)) st) = Success ans"
  by (simp add: POST_def Let_def case_prod_beta split: option.splits)

subsection \<open>Adapters that reject an empty text\<close>

lemma tryAIML_nonempty: "tryAIML net attempt diff a = Inr msg \<Longrightarrow> msg \<noteq> []"
  by (auto simp: tryAIML_def split: reply.splits if_splits)

lemma hf_models_loop_nonempty:
  "hf_models_loop net attempt diff models lastError = Inr msg \<Longrightarrow> msg \<noteq> []"
  by (induction models arbitrary: lastError)
     (auto split: reply.splits if_splits option.splits)

lemma tryHuggingFaceModels_nonempty: "tryHuggingFaceModels net attempt diff a = Inr msg \<Longrightarrow> msg \<noteq> []"
  unfolding tryHuggingFaceModels_def by (rule hf_models_loop_nonempty)

lemma free_models_loop_long:
  "free_models_loop net attempt diff models = Inr msg \<Longrightarrow> length msg > 10"
  by (induction models) (auto simp: Let_def split: reply.splits if_splits)

lemma tryFreeHuggingFace_long: "tryFreeHuggingFace net attempt diff a = Inr msg \<Longrightarrow> length msg > 10"
  unfolding tryFreeHuggingFace_def by (rule free_models_loop_long)

subsection \<open>An empty text wins the race\<close>

text \<open>
  Claim C3 fails on the code. \<open>tryOpenAI\<close> and \<open>tryGemini\<close> resolve with the empty
  string when the reply has status 200 and no text, where \<open>tryAIML\<close>,
  \<open>tryHuggingFaceModels\<close> and \<open>tryFreeHuggingFace\<close> raise; the coordinator takes the
  first task that resolves and does not look at its text. Here OpenAI answers with a
  body without content, and the race is won with the empty text.
\<close>

theorem empty_text_wins_race:
  "tryOpenAI (net_reply (openai_answers (Reply 200 None))) 1 small_diff (analyzeDiff small_diff) = Inr []
   \<and> fst (executeIntelligentAIStrategy (openai_answers (Reply 200 None)) small_diff (analyzeDiff small_diff)
          (initialServer 0)) = ([], ''openai'')"
  by code_simp

text \<open>
  Claim C1 fails on the code for the same reason: the fallback is total and its message
  is never empty, and the handler answers every non-empty diff, but when Gemini
  answers with a blank text the handler returns a success with an empty commit
  message.
\<close>

theorem POST_returns_empty_message:
  "small_diff \<noteq> []
   \<and> fst (POST (gemini_answers (Some ''  '')) (Body (Some small_diff)) (initialServer 0)) =
       Success \<lparr> commitMessage = [], provider_used = ''gemini'', cached = False,
                 answer_analysis = analyzeDiff small_diff \<rparr>"
  by code_simp

subsection \<open>Cooldown\<close>

lemma executeIntelligentAIStrategy_cooldown:
  "providerCooldownUntil (snd (executeIntelligentAIStrategy w diff a st)) = providerCooldownUntil st"
  by (simp add: executeIntelligentAIStrategy_unfold split: option.splits)

lemma POST_keeps_cooldown:
  "providerCooldownUntil (snd (POST w req st)) = providerCooldownUntil st"
  by (cases req)
     (simp_all add: POST_def Let_def case_prod_beta executeIntelligentAIStrategy_cooldown
        split: option.splits)

lemma cooling_openai_not_launched:
  "cooldown Openai = Some t \<Longrightarrow> t \<noteq> 0 \<Longrightarrow> nowTs < t \<Longrightarrow> Openai \<notin> set (launched env nowTs table cooldown)"
  by (simp add: launched_def not_cooling_def)

lemma cooling_gemini_launched:
  "Gemini \<in> set (launched gemini_env 0 (initialHealth 0) [Gemini \<mapsto> 60000])"
  by (simp add: launched_def gemini_env_def)

text \<open>
  Claim C6 fails on the code. \<open>providerCooldownUntil\<close> is read by the launch condition
  of OpenAI and by the logged list, and nothing writes it: a 429 from OpenAI is an
  error like any other, the table of cooldowns stays empty, and the next request
  launches OpenAI again.
\<close>

theorem rate_limit_sets_no_cooldown:
  "tryOpenAI (net_reply (openai_answers (Reply 429 None))) 1 small_diff (analyzeDiff small_diff) = Inl (ApiError 429)
   \<and> providerCooldownUntil (snd (POST (openai_answers (Reply 429 None)) (Body (Some small_diff)) (initialServer 0)))
        Openai = None
   \<and> Openai \<in> set (launched openai_env 1504
         (providerHealth (snd (POST (openai_answers (Reply 429 None)) (Body (Some small_diff)) (initialServer 0))))
         (providerCooldownUntil (snd (POST (openai_answers (Reply 429 None)) (Body (Some small_diff)) (initialServer 0)))))"
  by code_simp

subsection \<open>Cache\<close>

lemma POST_hit:
  assumes "diff \<noteq> []" and "responseCache st (generateCacheKey diff) = Some c"
    and "now_lookup w - timestamp c < CACHE_TTL"
  shows "POST w (Body (Some diff)) st =
           (Success \<lparr> commitMessage = response c, provider_used = ''cache'', cached = True,
                       answer_analysis = entry_analysis c \<rparr>, st)"
  using assms by (simp add: POST_def Let_def)

lemma POST_miss:
  assumes "diff \<noteq> []"
    and "\<forall>c. responseCache st (generateCacheKey diff) = Some c \<longrightarrow> \<not> now_lookup w - timestamp c < CACHE_TTL"
  shows "POST w (Body (Some diff)) st =
     (Success \<lparr> commitMessage = fst (fst (executeIntelligentAIStrategy w
                     (truncateDiff (redactSecrets diff) 12000)
                     (analyzeDiff (truncateDiff (redactSecrets diff) 12000)) st)),
                 provider_used = snd (fst (executeIntelligentAIStrategy w
                     (truncateDiff (redactSecrets diff) 12000)
                     (analyzeDiff (truncateDiff (redactSecrets diff) 12000)) st)),
                 cached = False,
                 answer_analysis = analyzeDiff (truncateDiff (redactSecrets diff) 12000) \<rparr>,
      (snd (executeIntelligentAIStrategy w
                     (truncateDiff (redactSecrets diff) 12000)
                     (analyzeDiff (truncateDiff (redactSecrets diff) 12000)) st))
        \<lparr>responseCache := cleanupCache (now_sweep w)
           ((responseCache (snd (executeIntelligentAIStrategy w
                     (truncateDiff (redactSecrets diff) 12000)
                     (analyzeDiff (truncateDiff (redactSecrets diff) 12000)) st)))
            (generateCacheKey diff \<mapsto>
               \<lparr> response = fst (fst (executeIntelligentAIStrategy w
                     (truncateDiff (redactSecrets diff) 12000)
                     (analyzeDiff (truncateDiff (redactSecrets diff) 12000)) st)),
                 timestamp = now_store w,
                 entry_analysis = analyzeDiff (truncateDiff (redactSecrets diff) 12000) \<rparr>))\<rparr>)"
proof (cases "responseCache st (generateCacheKey diff)")
  case None
  with assms(1) show ?thesis by (simp add: POST_def Let_def case_prod_beta)
next
  case (Some c)
  with assms have "\<not> now_lookup w - timestamp c < CACHE_TTL" by simp
  with Some assms(1) show ?thesis by (simp add: POST_def Let_def case_prod_beta)
qed

lemma POST_cached_iff:
  assumes "fst (POST w (Body (Some diff)) st) = Success ans"
  shows "cached ans \<longleftrightarrow>
     (\<exists>c. responseCache st (generateCacheKey diff) = Some c \<and> now_lookup w - timestamp c < CACHE_TTL)"
proof -
  from assms have ne: "diff \<noteq> []" by (auto simp: POST_def split: if_splits)
  show ?thesis
  proof (cases "\<exists>c. responseCache st (generateCacheKey diff) = Some c \<and> now_lookup w - timestamp c < CACHE_TTL")
    case True
    then obtain c where "responseCache st (generateCacheKey diff) = Some c"
      and "now_lookup w - timestamp c < CACHE_TTL" by blast
    from POST_hit [OF ne this] assms True show ?thesis by auto
  next
    case False
    then have "\<forall>c. responseCache st (generateCacheKey diff) = Some c \<longrightarrow> \<not> now_lookup w - timestamp c < CACHE_TTL"
      by blast
    from POST_miss [OF ne this] assms False show ?thesis by auto
  qed
qed

lemma cleanupCache_fresh:
  "cleanupCache now cache key = Some c \<Longrightarrow> now - timestamp c \<le> CACHE_TTL"
  by (auto simp: cleanupCache_def split: option.splits if_splits)

lemma cleanupCache_keeps:
  "cache key = Some c \<Longrightarrow> now - timestamp c \<le> CACHE_TTL \<Longrightarrow> cleanupCache now cache key = Some c"
  by (simp add: cleanupCache_def)

lemma executeIntelligentAIStrategy_cache:
  "responseCache (snd (executeIntelligentAIStrategy w diff a st)) = responseCache st"
  by (simp add: executeIntelligentAIStrategy_unfold split: option.splits)

text \<open>
  Claim C7. The time to live is 5 minutes. A request is answered from the cache only
  by an entry whose age at the lookup is strictly below it; an entry whose age has
  reached it is not returned and the request takes the miss path. The miss path is
  the only one that writes the cache, and after its write and \<open>cleanupCache\<close> no
  entry older than the time to live is left.
\<close>

theorem cache_entries_expire:
  "CACHE_TTL = 5 * 60 * 1000
   \<and> (fst (POST w (Body (Some diff)) st) = Success ans \<and> cached ans
        \<longrightarrow> (\<exists>c. responseCache st (generateCacheKey diff) = Some c
                 \<and> now_lookup w - timestamp c < CACHE_TTL \<and> commitMessage ans = response c))
   \<and> (diff \<noteq> [] \<and> responseCache st (generateCacheKey diff) = Some c
         \<and> CACHE_TTL \<le> now_lookup w - timestamp c
        \<longrightarrow> (\<exists>ans. fst (POST w (Body (Some diff)) st) = Success ans \<and> \<not> cached ans))
   \<and> (fst (POST w (Body (Some diff)) st) = Success ans \<and> \<not> cached ans
        \<longrightarrow> (\<forall>key c. responseCache (snd (POST w (Body (Some diff)) st)) key = Some c
                 \<longrightarrow> now_sweep w - timestamp c \<le> CACHE_TTL))"
proof (intro conjI impI)
  show "CACHE_TTL = 5 * 60 * 1000" by (simp add: CACHE_TTL_def)
next
  assume a: "fst (POST w (Body (Some diff)) st) = Success ans \<and> cached ans"
  then have ne: "diff \<noteq> []" by (auto simp: POST_def split: if_splits)
  from a POST_cached_iff obtain c where c: "responseCache st (generateCacheKey diff) = Some c"
    "now_lookup w - timestamp c < CACHE_TTL" by blast
  from POST_hit [OF ne c] a have "commitMessage ans = response c" by auto
  with c show "\<exists>c. responseCache st (generateCacheKey diff) = Some c
                 \<and> now_lookup w - timestamp c < CACHE_TTL \<and> commitMessage ans = response c"
    by blast
next
  assume a: "diff \<noteq> [] \<and> responseCache st (generateCacheKey diff) = Some c
         \<and> CACHE_TTL \<le> now_lookup w - timestamp c"
  then have "\<forall>c. responseCache st (generateCacheKey diff) = Some c \<longrightarrow> \<not> now_lookup w - timestamp c < CACHE_TTL"
    by auto
  from POST_miss [OF _ this] a show "\<exists>ans. fst (POST w (Body (Some diff)) st) = Success ans \<and> \<not> cached ans"
    by simp
next
  assume a: "fst (POST w (Body (Some diff)) st) = Success ans \<and> \<not> cached ans"
  then have ne: "diff \<noteq> []" by (auto simp: POST_def split: if_splits)
  from a POST_cached_iff
  have "\<forall>c. responseCache st (generateCacheKey diff) = Some c \<longrightarrow> \<not> now_lookup w - timestamp c < CACHE_TTL"
    by blast
  from POST_miss [OF ne this]
  show "\<forall>key c. responseCache (snd (POST w (Body (Some diff)) st)) key = Some c
                 \<longrightarrow> now_sweep w - timestamp c \<le> CACHE_TTL"
    by (simp add: cleanupCache_fresh)
qed


lemma key_small_diff: "generateCacheKey small_diff = ''commit_1453''"
  by (simp add: generateCacheKey_def hash_step_def code_of_def digit_char_def digits_def small_diff_def)

lemma stocked_entry:
  "responseCache stocked (generateCacheKey small_diff) =
     Some \<lparr> response = ''feat: add x'', timestamp = 900, entry_analysis = analyzeDiff small_diff \<rparr>"
  by (simp add: stocked_def key_small_diff)

theorem cache_entries_expire_witness:
  "fst (POST quiet_world (Body (Some small_diff)) stocked) =
      Success \<lparr> commitMessage = ''feat: add x'', provider_used = ''cache'', cached = True,
                answer_analysis = analyzeDiff small_diff \<rparr>
   \<and> (\<exists>c. responseCache stocked (generateCacheKey small_diff) = Some c
          \<and> now_lookup quiet_world - timestamp c < CACHE_TTL \<and> ''feat: add x'' = response c)
   \<and> CACHE_TTL \<le> now_lookup (later 300900 quiet_world) - 900
   \<and> (\<exists>ans. fst (POST (later 300900 quiet_world) (Body (Some small_diff)) stocked) = Success ans
          \<and> \<not> cached ans)
   \<and> \<not> (\<exists>key c. responseCache (snd (POST (later 300900 quiet_world) (Body (Some small_diff)) stocked)) key = Some c
          \<and> now_sweep (later 300900 quiet_world) - timestamp c > CACHE_TTL)"
proof -
  let ?hit = "\<lparr> commitMessage = ''feat: add x'', provider_used = ''cache'', cached = True,
                answer_analysis = analyzeDiff small_diff \<rparr>"
  have ne: "small_diff \<noteq> []" by (simp add: small_diff_def)
  have age: "now_lookup quiet_world - 900 < CACHE_TTL" by (simp add: quiet_world_def CACHE_TTL_def)
  have 1: "fst (POST quiet_world (Body (Some small_diff)) stocked) = Success ?hit"
    using POST_hit [OF ne stocked_entry] age by simp
  have c: "cached ?hit" by simp
  from cache_entries_expire [of quiet_world small_diff stocked ?hit] 1 c
  have 2: "\<exists>c. responseCache stocked (generateCacheKey small_diff) = Some c
          \<and> now_lookup quiet_world - timestamp c < CACHE_TTL \<and> ''feat: add x'' = response c"
    by simp
  have old: "CACHE_TTL \<le> now_lookup (later 300900 quiet_world) - 900"
    by (simp add: later_def CACHE_TTL_def)
  from cache_entries_expire [of "later 300900 quiet_world" small_diff stocked _
         "\<lparr> response = ''feat: add x'', timestamp = 900, entry_analysis = analyzeDiff small_diff \<rparr>"]
       ne stocked_entry old
  have 3: "\<exists>ans. fst (POST (later 300900 quiet_world) (Body (Some small_diff)) stocked) = Success ans
          \<and> \<not> cached ans"
    by simp
  then obtain ans where ans: "fst (POST (later 300900 quiet_world) (Body (Some small_diff)) stocked) = Success ans"
    "\<not> cached ans" by blast
  from cache_entries_expire [of "later 300900 quiet_world" small_diff stocked ans] ans
  have "\<forall>key c. responseCache (snd (POST (later 300900 quiet_world) (Body (Some small_diff)) stocked)) key = Some c
                 \<longrightarrow> now_sweep (later 300900 quiet_world) - timestamp c \<le> CACHE_TTL"
    by blast
  then have 4: "\<not> (\<exists>key c. responseCache (snd (POST (later 300900 quiet_world) (Body (Some small_diff)) stocked)) key = Some c
          \<and> now_sweep (later 300900 quiet_world) - timestamp c > CACHE_TTL)"
    by (metis not_less)
  from 1 2 old 3 4 show ?thesis by blast
qed

lemma swept_entry:
  "responseCache (snd (POST (later 300900 quiet_world) (Body (Some small_diff)) stocked)) ''commit_0'' = None"
  by code_simp

subsection \<open>Cache key and cache hits\<close>

lemma POST_by_lookup_hit:
  assumes "diff \<noteq> []" and "cache_lookup w diff st = Some c"
  shows "POST w (Body (Some diff)) st =
           (Success \<lparr> commitMessage = response c, provider_used = ''cache'', cached = True,
                       answer_analysis = entry_analysis c \<rparr>, st)"
proof -
  from assms(2) have "responseCache st (generateCacheKey diff) = Some c"
    and "now_lookup w - timestamp c < CACHE_TTL"
    by (auto simp: cache_lookup_def split: option.splits if_splits)
  with assms(1) show ?thesis by (rule POST_hit)
qed

lemma POST_by_lookup_miss:
  assumes "diff \<noteq> []" and "cache_lookup w diff st = None"
  shows "snd (POST w (Body (Some diff)) st) =
           store_answer w diff
             (fst (fst (executeIntelligentAIStrategy w (truncateDiff (redactSecrets diff) 12000)
                     (analyzeDiff (truncateDiff (redactSecrets diff) 12000)) st)))
             (analyzeDiff (truncateDiff (redactSecrets diff) 12000))
             (snd (executeIntelligentAIStrategy w (truncateDiff (redactSecrets diff) 12000)
                     (analyzeDiff (truncateDiff (redactSecrets diff) 12000)) st))"
proof -
  from assms(2)
  have "\<forall>c. responseCache st (generateCacheKey diff) = Some c \<longrightarrow> \<not> now_lookup w - timestamp c < CACHE_TTL"
    by (auto simp: cache_lookup_def split: option.splits if_splits)
  from POST_miss [OF assms(1) this] show ?thesis by (simp add: store_answer_def)
qed

lemma store_answer_own_key:
  "now_sweep w - now_store w \<le> CACHE_TTL \<Longrightarrow>
   responseCache (store_answer w diff message a st) (generateCacheKey diff) =
     Some \<lparr> response = message, timestamp = now_store w, entry_analysis = a \<rparr>"
  by (simp add: store_answer_def cleanupCache_def)

lemma store_answer_other_key:
  "generateCacheKey diff \<noteq> key \<Longrightarrow> responseCache st key = Some c
   \<Longrightarrow> now_sweep w - timestamp c \<le> CACHE_TTL
   \<Longrightarrow> responseCache (store_answer w diff message a st) key = Some c"
  by (simp add: store_answer_def cleanupCache_def)

lemma finish_all_Nil [simp]: "finish_all [] st = st"
  by (simp add: finish_all_def)

lemma finish_all_Cons [simp]: "finish_all (e # es) st = finish_all es (finish_request e st)"
  by (simp add: finish_all_def)

lemma finish_all_keeps_entry:
  assumes "\<forall>e \<in> set es. generateCacheKey (finished_diff e) \<noteq> key
                         \<and> now_sweep (finished_world e) - timestamp c \<le> CACHE_TTL"
  shows "responseCache st key = Some c \<Longrightarrow> responseCache (finish_all es st) key = Some c"
  using assms
proof (induction es arbitrary: st)
  case Nil
  then show ?case by simp
next
  case (Cons e es)
  from Cons.prems have "generateCacheKey (finished_diff e) \<noteq> key"
    and "now_sweep (finished_world e) - timestamp c \<le> CACHE_TTL" by simp_all
  with Cons.prems(1) have "responseCache (finish_request e st) key = Some c"
    unfolding finish_request_def by (intro store_answer_other_key)
  moreover from Cons.prems have "\<forall>e \<in> set es. generateCacheKey (finished_diff e) \<noteq> key
                         \<and> now_sweep (finished_world e) - timestamp c \<le> CACHE_TTL" by simp
  ultimately show ?case using Cons.IH by simp
qed

lemma POST_hit_by_cache:
  assumes "diff \<noteq> []" and "responseCache st2 = cache" and "cache (generateCacheKey diff) = Some c"
    and "now_lookup w - timestamp c < CACHE_TTL"
  shows "POST w (Body (Some diff)) st2 =
           (Success \<lparr> commitMessage = response c, provider_used = ''cache'', cached = True,
                       answer_analysis = entry_analysis c \<rparr>, st2)"
  using assms by (intro POST_hit) simp_all

text \<open>
  Claim C2, as amended. The cache key is a hash of the diff as it arrives in the
  request, taken before the diff is sanitized, and it depends on the order of the
  characters. Take two requests with the same diff. If the first one stores its
  message, whatever ran while it awaited its race, and no request stores under the
  same key between that write and the lookup of the second, and the second looks the
  cache up less than the time to live after the write, then the second is answered
  with the same message and reports a cache hit. The same holds when the first
  request was itself served from an entry, for the age of that entry. A request that
  runs through with no other write in between stores exactly as \<open>store_answer\<close>
  does. The other requests are taken in the order of their writes, none later than
  the second request's lookup.
\<close>

theorem same_raw_diff_hits_cache:
  "generateCacheKey ''ab'' \<noteq> generateCacheKey ''ba''
   \<and> (fst (POST w1 (Body (Some diff)) st) = Success ans1 \<and> \<not> cached ans1
        \<longrightarrow> responseCache (snd (POST w1 (Body (Some diff)) st)) =
              responseCache (store_answer w1 diff (commitMessage ans1) (answer_analysis ans1) st))
   \<and> (diff \<noteq> [] \<and> now_sweep w1 \<le> now_lookup w2
        \<and> (\<forall>e \<in> set others. generateCacheKey (finished_diff e) \<noteq> generateCacheKey diff
                              \<and> now_sweep (finished_world e) \<le> now_lookup w2)
        \<and> responseCache st2 = responseCache (finish_all others (store_answer w1 diff message a st1))
        \<and> now_lookup w2 - now_store w1 < CACHE_TTL
       \<longrightarrow> POST w2 (Body (Some diff)) st2 =
             (Success \<lparr> commitMessage = message, provider_used = ''cache'', cached = True,
                        answer_analysis = a \<rparr>, st2))
   \<and> (fst (POST w1 (Body (Some diff)) st1) = Success ans1 \<and> cached ans1
        \<and> responseCache st1 (generateCacheKey diff) = Some c
        \<and> (\<forall>e \<in> set others. generateCacheKey (finished_diff e) \<noteq> generateCacheKey diff
                              \<and> now_sweep (finished_world e) \<le> now_lookup w2)
        \<and> responseCache st2 = responseCache (finish_all others st1)
        \<and> now_lookup w2 - timestamp c < CACHE_TTL
       \<longrightarrow> POST w2 (Body (Some diff)) st2 = (Success ans1, st2))"
proof (intro conjI impI)
  show "generateCacheKey ''ab'' \<noteq> generateCacheKey ''ba''"
    by (simp add: generateCacheKey_def hash_step_def code_of_def digit_char_def digits_def)
next
  assume a: "fst (POST w1 (Body (Some diff)) st) = Success ans1 \<and> \<not> cached ans1"
  then have ne: "diff \<noteq> []" by (auto simp: POST_def split: if_splits)
  from a POST_cached_iff
  have m: "\<forall>c. responseCache st (generateCacheKey diff) = Some c \<longrightarrow> \<not> now_lookup w1 - timestamp c < CACHE_TTL"
    by blast
  from POST_miss [OF ne m] a
  have "commitMessage ans1 = fst (fst (executeIntelligentAIStrategy w1
                     (truncateDiff (redactSecrets diff) 12000)
                     (analyzeDiff (truncateDiff (redactSecrets diff) 12000)) st))"
    and "answer_analysis ans1 = analyzeDiff (truncateDiff (redactSecrets diff) 12000)"
    by auto
  with POST_miss [OF ne m]
  show "responseCache (snd (POST w1 (Body (Some diff)) st)) =
              responseCache (store_answer w1 diff (commitMessage ans1) (answer_analysis ans1) st)"
    by (simp add: store_answer_def executeIntelligentAIStrategy_cache)
next
  assume a: "diff \<noteq> [] \<and> now_sweep w1 \<le> now_lookup w2
        \<and> (\<forall>e \<in> set others. generateCacheKey (finished_diff e) \<noteq> generateCacheKey diff
                              \<and> now_sweep (finished_world e) \<le> now_lookup w2)
        \<and> responseCache st2 = responseCache (finish_all others (store_answer w1 diff message a st1))
        \<and> now_lookup w2 - now_store w1 < CACHE_TTL"
  let ?c = "\<lparr> response = message, timestamp = now_store w1, entry_analysis = a \<rparr>"
  from a have "now_sweep w1 - now_store w1 \<le> CACHE_TTL" by simp
  then have own: "responseCache (store_answer w1 diff message a st1) (generateCacheKey diff) = Some ?c"
    by (rule store_answer_own_key)
  from a have "\<forall>e \<in> set others. generateCacheKey (finished_diff e) \<noteq> generateCacheKey diff
                              \<and> now_sweep (finished_world e) - timestamp ?c \<le> CACHE_TTL"
    by auto
  from finish_all_keeps_entry [OF this own]
  have "responseCache (finish_all others (store_answer w1 diff message a st1)) (generateCacheKey diff) = Some ?c" .
  with a have "responseCache st2 (generateCacheKey diff) = Some ?c" by simp
  moreover from a have "now_lookup w2 - timestamp ?c < CACHE_TTL" by simp
  moreover from a have "diff \<noteq> []" by simp
  ultimately have "POST w2 (Body (Some diff)) st2 =
           (Success \<lparr> commitMessage = response ?c, provider_used = ''cache'', cached = True,
                       answer_analysis = entry_analysis ?c \<rparr>, st2)"
    by (intro POST_hit)
  then show "POST w2 (Body (Some diff)) st2 =
             (Success \<lparr> commitMessage = message, provider_used = ''cache'', cached = True,
                        answer_analysis = a \<rparr>, st2)"
    by simp
next
  assume a: "fst (POST w1 (Body (Some diff)) st1) = Success ans1 \<and> cached ans1
        \<and> responseCache st1 (generateCacheKey diff) = Some c
        \<and> (\<forall>e \<in> set others. generateCacheKey (finished_diff e) \<noteq> generateCacheKey diff
                              \<and> now_sweep (finished_world e) \<le> now_lookup w2)
        \<and> responseCache st2 = responseCache (finish_all others st1)
        \<and> now_lookup w2 - timestamp c < CACHE_TTL"
  then have ne: "diff \<noteq> []" by (auto simp: POST_def split: if_splits)
  from a POST_cached_iff [of w1 diff st1 ans1] have "now_lookup w1 - timestamp c < CACHE_TTL" by auto
  with a POST_hit [OF ne, of st1 c w1]
  have ans: "ans1 = \<lparr> commitMessage = response c, provider_used = ''cache'',
       cached = True, answer_analysis = entry_analysis c \<rparr>" by simp
  from a have "\<forall>e \<in> set others. generateCacheKey (finished_diff e) \<noteq> generateCacheKey diff
                              \<and> now_sweep (finished_world e) - timestamp c \<le> CACHE_TTL"
    by auto
  from finish_all_keeps_entry [OF this] a
  have "responseCache (finish_all others st1) (generateCacheKey diff) = Some c" by simp
  with a have "responseCache st2 (generateCacheKey diff) = Some c" by simp
  moreover from a have "now_lookup w2 - timestamp c < CACHE_TTL" by simp
  ultimately have "POST w2 (Body (Some diff)) st2 =
           (Success \<lparr> commitMessage = response c, provider_used = ''cache'', cached = True,
                       answer_analysis = entry_analysis c \<rparr>, st2)"
    using ne by (intro POST_hit)
  with ans show "POST w2 (Body (Some diff)) st2 = (Success ans1, st2)" by simp
qed

lemma first_request_answer:
  "fst (POST (gemini_answers (Some ''feat: add x'')) (Body (Some small_diff)) (initialServer 0)) =
     Success \<lparr> commitMessage = ''feat: add x'', provider_used = ''gemini'', cached = False,
               answer_analysis = analyzeDiff small_diff \<rparr>"
  by code_simp

lemma key_a: "generateCacheKey secret_diff_a = ''commit_765087895''"
  by (simp add: generateCacheKey_def hash_step_def code_of_def digit_char_def digits_def secret_diff_a_def)

lemma other_completion_facts:
  "generateCacheKey (finished_diff other_completion) \<noteq> generateCacheKey small_diff"
  "now_sweep (finished_world other_completion) = 2103"
  by (simp_all add: other_completion_def key_a key_small_diff later_def)

theorem same_raw_diff_hits_cache_witness:
  "fst (POST (gemini_answers (Some ''feat: add x'')) (Body (Some small_diff)) (initialServer 0)) =
        Success \<lparr> commitMessage = ''feat: add x'', provider_used = ''gemini'', cached = False,
                  answer_analysis = analyzeDiff small_diff \<rparr>
   \<and> responseCache (snd (POST (gemini_answers (Some ''feat: add x'')) (Body (Some small_diff)) (initialServer 0))) =
        responseCache (store_answer (gemini_answers (Some ''feat: add x'')) small_diff ''feat: add x''
                         (analyzeDiff small_diff) (initialServer 0))
   \<and> small_diff \<noteq> []
   \<and> now_sweep (gemini_answers (Some ''feat: add x'')) \<le> now_lookup (later 4000 quiet_world)
   \<and> generateCacheKey (finished_diff other_completion) \<noteq> generateCacheKey small_diff
   \<and> now_sweep (finished_world other_completion) \<le> now_lookup (later 4000 quiet_world)
   \<and> now_lookup (later 4000 quiet_world) - now_store (gemini_answers (Some ''feat: add x'')) < CACHE_TTL
   \<and> fst (POST (later 4000 quiet_world) (Body (Some small_diff))
          (finish_all [other_completion]
             (store_answer (gemini_answers (Some ''feat: add x'')) small_diff ''feat: add x''
                (analyzeDiff small_diff) (initialServer 0)))) =
        Success \<lparr> commitMessage = ''feat: add x'', provider_used = ''cache'', cached = True,
                  answer_analysis = analyzeDiff small_diff \<rparr>
   \<and> fst (POST quiet_world (Body (Some small_diff)) stocked) =
        Success \<lparr> commitMessage = ''feat: add x'', provider_used = ''cache'', cached = True,
                  answer_analysis = analyzeDiff small_diff \<rparr>
   \<and> now_lookup (later 4000 quiet_world) - 900 < CACHE_TTL
   \<and> fst (POST (later 4000 quiet_world) (Body (Some small_diff)) (finish_all [other_completion] stocked)) =
        Success \<lparr> commitMessage = ''feat: add x'', provider_used = ''cache'', cached = True,
                  answer_analysis = analyzeDiff small_diff \<rparr>"
proof -
  let ?w1 = "gemini_answers (Some ''feat: add x'')"
  let ?w2 = "later 4000 quiet_world"
  let ?a1 = "\<lparr> commitMessage = ''feat: add x'', provider_used = ''gemini'', cached = False,
                  answer_analysis = analyzeDiff small_diff \<rparr>"
  let ?hit = "\<lparr> commitMessage = ''feat: add x'', provider_used = ''cache'', cached = True,
                answer_analysis = analyzeDiff small_diff \<rparr>"
  let ?c = "\<lparr> response = ''feat: add x'', timestamp = 900, entry_analysis = analyzeDiff small_diff \<rparr>"
  let ?s1 = "store_answer ?w1 small_diff ''feat: add x'' (analyzeDiff small_diff) (initialServer 0)"
  have n: "\<not> cached ?a1" by simp
  from same_raw_diff_hits_cache [where ?w1.0 = ?w1 and diff = small_diff and st = "initialServer 0" and ?ans1.0 = ?a1] first_request_answer n
  have 1: "responseCache (snd (POST ?w1 (Body (Some small_diff)) (initialServer 0))) = responseCache ?s1"
    by simp
  have ne: "small_diff \<noteq> []" by (simp add: small_diff_def)
  have t1: "now_sweep ?w1 \<le> now_lookup ?w2"
    by (simp add: gemini_answers_def quiet_world_def later_def)
  have t2: "now_sweep (finished_world other_completion) \<le> now_lookup ?w2"
    by (simp add: other_completion_facts later_def)
  have t3: "now_lookup ?w2 - now_store ?w1 < CACHE_TTL"
    by (simp add: gemini_answers_def quiet_world_def later_def CACHE_TTL_def)
  have o: "\<forall>e \<in> set [other_completion]. generateCacheKey (finished_diff e) \<noteq> generateCacheKey small_diff
              \<and> now_sweep (finished_world e) \<le> now_lookup ?w2"
    using other_completion_facts(1) t2 by simp
  from same_raw_diff_hits_cache [where diff = small_diff and ?w1.0 = ?w1 and ?w2.0 = ?w2
         and others = "[other_completion]" and ?st2.0 = "finish_all [other_completion] ?s1"
         and message = "''feat: add x''" and a = "analyzeDiff small_diff" and ?st1.0 = "initialServer 0"]
       ne t1 o t3
  have 2: "fst (POST ?w2 (Body (Some small_diff)) (finish_all [other_completion] ?s1)) = Success ?hit"
    by simp
  have age: "now_lookup quiet_world - 900 < CACHE_TTL" by (simp add: quiet_world_def CACHE_TTL_def)
  have h: "fst (POST quiet_world (Body (Some small_diff)) stocked) = Success ?hit"
    using POST_hit [OF ne stocked_entry] age by simp
  have c: "cached ?hit" by simp
  have age2: "now_lookup ?w2 - 900 < CACHE_TTL" by (simp add: later_def CACHE_TTL_def)
  from same_raw_diff_hits_cache [where ?w1.0 = quiet_world and diff = small_diff and ?ans1.0 = ?hit
         and ?w2.0 = ?w2 and others = "[other_completion]"
         and ?st2.0 = "finish_all [other_completion] stocked" and ?st1.0 = stocked and c = ?c]
       h c stocked_entry o age2
  have 3: "fst (POST ?w2 (Body (Some small_diff)) (finish_all [other_completion] stocked)) = Success ?hit"
    by simp
  from first_request_answer 1 ne t1 other_completion_facts(1) t2 t3 2 h age2 3 show ?thesis by blast
qed

text \<open>
  Why the amended claim asks that no request store under the same key in between: a
  request that looked the cache up at 900 and missed is still in its race when a
  second one with the same diff misses at 1000 and stores ``feat: one'' at 1502; the
  first stores ``feat: zero'' at 5000 over it, and a third request at 6000, well
  inside the time to live of the second one's write, is answered ``feat: zero''.
\<close>

lemma overlapping_request_replaces_entry:
  "cache_lookup slow_world small_diff (initialServer 0) = None
   \<and> cache_lookup (gemini_answers (Some ''feat: one'')) small_diff (initialServer 0) = None
   \<and> now_lookup (later 6000 quiet_world) - now_store (gemini_answers (Some ''feat: one'')) < CACHE_TTL
   \<and> fst (POST (later 6000 quiet_world) (Body (Some small_diff))
          (store_answer slow_world small_diff ''feat: zero'' (analyzeDiff small_diff)
             (store_answer (gemini_answers (Some ''feat: one'')) small_diff ''feat: one''
                (analyzeDiff small_diff) (initialServer 0)))) =
        Success \<lparr> commitMessage = ''feat: zero'', provider_used = ''cache'', cached = True,
                  answer_analysis = analyzeDiff small_diff \<rparr>"
proof -
  let ?s = "store_answer slow_world small_diff ''feat: zero'' (analyzeDiff small_diff)
             (store_answer (gemini_answers (Some ''feat: one'')) small_diff ''feat: one''
                (analyzeDiff small_diff) (initialServer 0))"
  have 1: "cache_lookup slow_world small_diff (initialServer 0) = None"
    and 2: "cache_lookup (gemini_answers (Some ''feat: one'')) small_diff (initialServer 0) = None"
    by (simp_all add: cache_lookup_def initialServer_def)
  have 3: "now_lookup (later 6000 quiet_world) - now_store (gemini_answers (Some ''feat: one'')) < CACHE_TTL"
    by (simp add: later_def gemini_answers_def quiet_world_def CACHE_TTL_def)
  have "now_sweep slow_world - now_store slow_world \<le> CACHE_TTL"
    by (simp add: slow_world_def CACHE_TTL_def)
  then have e: "responseCache ?s (generateCacheKey small_diff) =
      Some \<lparr> response = ''feat: zero'', timestamp = now_store slow_world,
             entry_analysis = analyzeDiff small_diff \<rparr>"
    by (rule store_answer_own_key)
  have ne: "small_diff \<noteq> []" by (simp add: small_diff_def)
  have "now_lookup (later 6000 quiet_world) - now_store slow_world < CACHE_TTL"
    by (simp add: later_def slow_world_def CACHE_TTL_def)
  with POST_hit [OF ne e, of "later 6000 quiet_world"]
  have 4: "fst (POST (later 6000 quiet_world) (Body (Some small_diff)) ?s) =
        Success \<lparr> commitMessage = ''feat: zero'', provider_used = ''cache'', cached = True,
                  answer_analysis = analyzeDiff small_diff \<rparr>"
    by simp
  from 1 2 3 4 show ?thesis by blast
qed

lemma executeWithRetry_from_result:
  "fst (executeWithRetry_from attempt p fn el now table) =
   fst (executeWithRetry_from attempt p fn el now table')"
proof (induction attempt p fn el now table rule: executeWithRetry_from.induct)
  case (1 attempt p fn el now table)
  show ?case
  proof (cases "attempt \<le> MAX_RETRIES")
    case False
    then show ?thesis
      by (subst executeWithRetry_from.simps, subst (2) executeWithRetry_from.simps) simp
  next
    case True
    show ?thesis
    proof (cases "fn attempt")
      case (Inr msg)
      with True show ?thesis
        by (subst executeWithRetry_from.simps, subst (2) executeWithRetry_from.simps) simp
    next
      case (Inl e)
      show ?thesis
      proof (cases "attempt = MAX_RETRIES")
        case True
        with Inl show ?thesis
          by (subst executeWithRetry_from.simps, subst (2) executeWithRetry_from.simps) simp
      next
        case False
        from "1.IH" [OF True Inl False] True Inl False show ?thesis
          by (subst executeWithRetry_from.simps, subst (2) executeWithRetry_from.simps) simp
      qed
    qed
  qed
qed

lemma run_tasks_result:
  "fst (run_tasks w diff a ps table) = fst (run_tasks w diff a ps table')"
proof (induction ps arbitrary: table table')
  case Nil
  show ?case by simp
next
  case (Cons p ps)
  have "fst (executeWithRetry p (\<lambda>attempt. provider_call p (net_reply w) attempt diff a)
               (elapsed w p) (now_report w p) table) =
        fst (executeWithRetry p (\<lambda>attempt. provider_call p (net_reply w) attempt diff a)
               (elapsed w p) (now_report w p) table')"
    unfolding executeWithRetry_def by (rule executeWithRetry_from_result)
  moreover have "fst (run_tasks w diff a ps
           (snd (executeWithRetry p (\<lambda>attempt. provider_call p (net_reply w) attempt diff a)
               (elapsed w p) (now_report w p) table))) =
        fst (run_tasks w diff a ps
           (snd (executeWithRetry p (\<lambda>attempt. provider_call p (net_reply w) attempt diff a)
               (elapsed w p) (now_report w p) table')))"
    by (rule Cons.IH)
  ultimately show ?case unfolding run_tasks_Cons by simp
qed

lemma strategy_result_by_launch:
  assumes "launched (process_env w) (now_strategy w) (providerHealth st) (providerCooldownUntil st) =
           launched (process_env w) (now_strategy w) (providerHealth st') (providerCooldownUntil st')"
  shows "fst (executeIntelligentAIStrategy w diff a st) = fst (executeIntelligentAIStrategy w diff a st')"
proof -
  let ?ps = "launched (process_env w) (now_strategy w) (providerHealth st') (providerCooldownUntil st')"
  have "fst (run_tasks w diff a ?ps (providerHealth st)) = fst (run_tasks w diff a ?ps (providerHealth st'))"
    by (rule run_tasks_result)
  then show ?thesis
    unfolding executeIntelligentAIStrategy_unfold assms by (simp split: option.splits)
qed

lemma sanitized_a: "truncateDiff (redactSecrets secret_diff_a) 12000 = ''+[REDACTED]''"
  by code_simp

lemma sanitized_b: "truncateDiff (redactSecrets secret_diff_b) 12000 = ''+[REDACTED]''"
  by code_simp

lemma key_b: "generateCacheKey secret_diff_b = ''commit_1578971031''"
  by (simp add: generateCacheKey_def hash_step_def code_of_def digit_char_def digits_def secret_diff_b_def)


lemma first_strategy_a:
  "fst (executeIntelligentAIStrategy (gemini_answers (Some ''feat: A'')) ''+[REDACTED]''
         (analyzeDiff ''+[REDACTED]'') (initialServer 0)) = (''feat: A'', ''gemini'')"
  by code_simp

lemma second_strategy_b:
  "fst (executeIntelligentAIStrategy (later 2000 (gemini_answers (Some ''fix: B''))) ''+[REDACTED]''
         (analyzeDiff ''+[REDACTED]'') (initialServer 0)) = (''fix: B'', ''gemini'')"
  by code_simp

lemma health_after_a:
  "isHealthy (providerHealth (snd (executeIntelligentAIStrategy (gemini_answers (Some ''feat: A''))
       ''+[REDACTED]'' (analyzeDiff ''+[REDACTED]'') (initialServer 0))) Gemini)
   \<and> isHealthy (providerHealth (snd (executeIntelligentAIStrategy (gemini_answers (Some ''feat: A''))
       ''+[REDACTED]'' (analyzeDiff ''+[REDACTED]'') (initialServer 0))) Freehf)"
  by code_simp

text \<open>
  The claim as stated fails: the key is not computed from the sanitized text. Two diffs
  that differ only in a secret have the same sanitized text and different keys, so the
  second request, 498 milliseconds after the first one stored its message, misses the
  cache and returns another message.
\<close>

theorem sanitized_equal_diffs_miss_cache:
  "truncateDiff (redactSecrets secret_diff_a) 12000 = truncateDiff (redactSecrets secret_diff_b) 12000
   \<and> now_lookup (later 2000 (gemini_answers (Some ''fix: B''))) - now_store (gemini_answers (Some ''feat: A''))
        < CACHE_TTL
   \<and> fst (POST (gemini_answers (Some ''feat: A'')) (Body (Some secret_diff_a)) (initialServer 0)) =
        Success \<lparr> commitMessage = ''feat: A'', provider_used = ''gemini'', cached = False,
                  answer_analysis = analyzeDiff ''+[REDACTED]'' \<rparr>
   \<and> fst (POST (later 2000 (gemini_answers (Some ''fix: B''))) (Body (Some secret_diff_b))
          (snd (POST (gemini_answers (Some ''feat: A'')) (Body (Some secret_diff_a)) (initialServer 0)))) =
        Success \<lparr> commitMessage = ''fix: B'', provider_used = ''gemini'', cached = False,
                  answer_analysis = analyzeDiff ''+[REDACTED]'' \<rparr>"
proof -
  let ?wa = "gemini_answers (Some ''feat: A'')"
  let ?wb = "later 2000 (gemini_answers (Some ''fix: B''))"
  let ?s0 = "initialServer 0"
  let ?s1 = "snd (POST ?wa (Body (Some secret_diff_a)) ?s0)"
  let ?e = "executeIntelligentAIStrategy ?wa ''+[REDACTED]'' (analyzeDiff ''+[REDACTED]'') ?s0"
  have 1: "truncateDiff (redactSecrets secret_diff_a) 12000 = truncateDiff (redactSecrets secret_diff_b) 12000"
    by (simp add: sanitized_a sanitized_b)
  have 2: "now_lookup ?wb - now_store ?wa < CACHE_TTL"
    by (simp add: later_def gemini_answers_def quiet_world_def CACHE_TTL_def)
  have na: "secret_diff_a \<noteq> []" by (simp add: secret_diff_a_def)
  have nb: "secret_diff_b \<noteq> []" by (simp add: secret_diff_b_def)
  have ma: "\<forall>c. responseCache ?s0 (generateCacheKey secret_diff_a) = Some c
              \<longrightarrow> \<not> now_lookup ?wa - timestamp c < CACHE_TTL"
    by (simp add: initialServer_def)
  note pa = POST_miss [OF na ma, unfolded sanitized_a]
  from pa have 3: "fst (POST ?wa (Body (Some secret_diff_a)) ?s0) =
        Success \<lparr> commitMessage = ''feat: A'', provider_used = ''gemini'', cached = False,
                  answer_analysis = analyzeDiff ''+[REDACTED]'' \<rparr>"
    by (simp add: first_strategy_a)
  from pa have h1: "providerHealth ?s1 = providerHealth (snd ?e)" by simp
  have c1: "providerCooldownUntil ?s1 = providerCooldownUntil ?s0" by (rule POST_keeps_cooldown)
  from pa have "responseCache ?s1 (generateCacheKey secret_diff_b) =
      cleanupCache (now_sweep ?wa)
        ((responseCache (snd ?e))(generateCacheKey secret_diff_a \<mapsto>
           \<lparr> response = fst (fst ?e), timestamp = now_store ?wa,
              entry_analysis = analyzeDiff ''+[REDACTED]'' \<rparr>)) (generateCacheKey secret_diff_b)"
    by simp
  then have "responseCache ?s1 (generateCacheKey secret_diff_b) = None"
    by (simp add: executeIntelligentAIStrategy_cache cleanupCache_def key_a key_b initialServer_def)
  then have mb: "\<forall>c. responseCache ?s1 (generateCacheKey secret_diff_b) = Some c
              \<longrightarrow> \<not> now_lookup ?wb - timestamp c < CACHE_TTL"
    by simp
  have l: "launched (process_env ?wb) (now_strategy ?wb) (providerHealth ?s1) (providerCooldownUntil ?s1) =
           launched (process_env ?wb) (now_strategy ?wb) (providerHealth ?s0) (providerCooldownUntil ?s0)"
    unfolding h1 c1 using health_after_a
    by (simp add: launched_def later_def gemini_answers_def quiet_world_def gemini_env_def initialServer_def)
  note pb = POST_miss [OF nb mb, unfolded sanitized_b]
  from pb have 4: "fst (POST ?wb (Body (Some secret_diff_b)) ?s1) =
        Success \<lparr> commitMessage = ''fix: B'', provider_used = ''gemini'', cached = False,
                  answer_analysis = analyzeDiff ''+[REDACTED]'' \<rparr>"
    by (simp add: strategy_result_by_launch [OF l] second_strategy_b)
  from 1 2 3 4 show ?thesis by blast
qed

subsection \<open>Redaction\<close>

lemma lit_prefix_length: "lit_prefix ci w u \<Longrightarrow> length w \<le> length u"
  by (induction ci w u rule: lit_prefix.induct) auto

lemma lit_prefix_append:
  "\<forall>ch \<in> set w. \<not> same_char ci ch x \<Longrightarrow> u \<noteq> [] \<Longrightarrow> last u = x
   \<Longrightarrow> lit_prefix ci w (u @ v) = lit_prefix ci w u"
proof (induction w arbitrary: u)
  case Nil
  show ?case by simp
next
  case (Cons p ps)
  from Cons.prems(2) obtain c t where u: "u = c # t" by (cases u) auto
  show ?case
  proof (cases "t = []")
    case True
    with u Cons.prems have "c = x" by simp
    moreover from Cons.prems(1) have "\<not> same_char ci p x" by simp
    ultimately show ?thesis using u True by simp
  next
    case False
    with u Cons.prems have "last t = x" by simp
    with Cons.IH [of t] Cons.prems(1) False have "lit_prefix ci ps (t @ v) = lit_prefix ci ps t" by simp
    then show ?thesis using u by simp
  qed
qed

lemma ends_drop: "u = [] \<or> last u = x \<Longrightarrow> drop k u = [] \<or> last (drop k u) = x"
  by (cases "k < length u") auto

lemma takeWhile_boundary:
  assumes "\<not> P x \<or> (v \<noteq> [] \<and> \<not> P (hd v))" and "u \<noteq> []" and "last u = x"
  shows "takeWhile P (u @ v) = takeWhile P u"
proof (cases "\<forall>c \<in> set u. P c")
  case True
  with assms(2,3) have "P x" using last_in_set by blast
  with assms(1) have v: "v \<noteq> []" "\<not> P (hd v)" by auto
  then have e1: "takeWhile P v = []" by (cases v) auto
  from True have e2: "takeWhile P u = u" by (simp add: takeWhile_eq_all_conv)
  from True have "takeWhile P (u @ v) = u @ takeWhile P v" by (intro takeWhile_append2) auto
  then show ?thesis by (simp only: e1 e2 append_Nil2)
next
  case False
  then obtain c where "c \<in> set u" "\<not> P c" by blast
  then show ?thesis by (rule takeWhile_append1)
qed

lemma residuals_append:
  "boundary_ok ci x v items \<Longrightarrow> u = [] \<or> last u = x
   \<Longrightarrow> residuals ci items (u @ v) = map (\<lambda>s. s @ v) (residuals ci items u)"
proof (induction items arbitrary: u)
  case Nil
  show ?case by simp
next
  case (Cons it r)
  from Cons.prems(1) have ok: "item_ok ci x v it"
    and base: "residuals ci (it # r) v = map (\<lambda>s. s @ v) (residuals ci (it # r) [])"
    and rest: "boundary_ok ci x v r" by simp_all
  note IH = Cons.IH [OF rest]
  show ?case
  proof (cases "u = []")
    case True
    with base show ?thesis by simp
  next
    case False
    with Cons.prems(2) have lastu: "last u = x" by simp
    from False obtain c t where u: "u = c # t" by (cases u) auto
    from Cons.prems(2) u have t: "t = [] \<or> last t = x" by (cases t) auto
    show ?thesis
    proof (cases it)
      case (Lit w)
      with ok have w: "\<forall>ch \<in> set w. \<not> same_char ci ch x" by simp
      have lp: "lit_prefix ci w (u @ v) = lit_prefix ci w u"
        using w False lastu by (rule lit_prefix_append)
      show ?thesis
      proof (cases "lit_prefix ci w u")
        case True
        then have "length w \<le> length u" by (rule lit_prefix_length)
        then have d: "drop (length w) (u @ v) = drop (length w) u @ v" by simp
        from Cons.prems(2) have "drop (length w) u = [] \<or> last (drop (length w) u) = x"
          by (rule ends_drop)
        from IH [OF this] True lp d Lit show ?thesis by simp
      next
        case False
        with lp Lit show ?thesis by simp
      qed
    next
      case (One k)
      with IH [OF t] u show ?thesis by simp
    next
      case (Opt k)
      with IH [OF t] IH [OF Cons.prems(2)] u show ?thesis by simp
    next
      case (Many n k)
      with ok have "\<not> in_cls k x \<or> (v \<noteq> [] \<and> \<not> in_cls k (hd v))" by simp
      then have tw: "takeWhile (in_cls k) (u @ v) = takeWhile (in_cls k) u"
        using False lastu by (rule takeWhile_boundary)
      have "\<And>j. j \<in> set (rev [n ..< Suc (length (takeWhile (in_cls k) u))])
              \<Longrightarrow> residuals ci r (drop j (u @ v)) = map (\<lambda>s. s @ v) (residuals ci r (drop j u))"
      proof -
        fix j assume "j \<in> set (rev [n ..< Suc (length (takeWhile (in_cls k) u))])"
        then have "j \<le> length (takeWhile (in_cls k) u)" by auto
        also have "\<dots> \<le> length u" by (rule length_takeWhile_le)
        finally have d: "drop j (u @ v) = drop j u @ v" by simp
        from Cons.prems(2) have "drop j u = [] \<or> last (drop j u) = x" by (rule ends_drop)
        from IH [OF this] d show "residuals ci r (drop j (u @ v)) = map (\<lambda>s. s @ v) (residuals ci r (drop j u))"
          by simp
      qed
      then have m: "map (\<lambda>j. residuals ci r (drop j (u @ v))) (rev [n ..< Suc (length (takeWhile (in_cls k) u))])
          = map (\<lambda>j. map (\<lambda>s. s @ v) (residuals ci r (drop j u))) (rev [n ..< Suc (length (takeWhile (in_cls k) u))])"
        by (intro map_cong refl)
      have "residuals ci (Many n k # r) (u @ v) =
            concat (map (\<lambda>j. residuals ci r (drop j (u @ v)))
                      (rev [n ..< Suc (length (takeWhile (in_cls k) (u @ v)))]))"
        by (simp only: residuals.simps)
      also have "\<dots> = concat (map (\<lambda>j. map (\<lambda>s. s @ v) (residuals ci r (drop j u)))
                      (rev [n ..< Suc (length (takeWhile (in_cls k) u))]))"
        by (simp only: tw m)
      also have "\<dots> = map (\<lambda>s. s @ v) (concat (map (\<lambda>j. residuals ci r (drop j u))
                      (rev [n ..< Suc (length (takeWhile (in_cls k) u))])))"
        by (simp only: map_concat map_map comp_def)
      also have "\<dots> = map (\<lambda>s. s @ v) (residuals ci (Many n k # r) u)"
        by (simp only: residuals.simps)
      finally show ?thesis using Many by simp
    next
      case End
      with ok show ?thesis by simp
    qed
  qed
qed

lemma residuals_drop:
  "s \<in> set (residuals ci items u) \<Longrightarrow> \<exists>k. s = drop k u"
proof (induction items arbitrary: u)
  case Nil
  then have "s = drop 0 u" by simp
  then show ?case ..
next
  case (Cons it r)
  show ?case
  proof (cases it)
    case (Lit w)
    with Cons.prems have "s \<in> set (residuals ci r (drop (length w) u))"
      by (simp split: if_splits)
    from Cons.IH [OF this] obtain k where "s = drop k (drop (length w) u)" ..
    then have "s = drop (k + length w) u" by simp
    then show ?thesis ..
  next
    case (One k)
    with Cons.prems obtain c t where u: "u = c # t" and "s \<in> set (residuals ci r t)"
      by (cases u) (auto split: if_splits)
    from Cons.IH [OF this(2)] obtain j where "s = drop j t" ..
    with u have "s = drop (Suc j) u" by simp
    then show ?thesis ..
  next
    case (Opt k)
    with Cons.prems have "s \<in> set (residuals ci r u) \<or> (\<exists>c t. u = c # t \<and> s \<in> set (residuals ci r t))"
      by (cases u) (auto split: if_splits)
    then show ?thesis
    proof
      assume "s \<in> set (residuals ci r u)"
      then show ?thesis by (rule Cons.IH)
    next
      assume "\<exists>c t. u = c # t \<and> s \<in> set (residuals ci r t)"
      then obtain c t where u: "u = c # t" and "s \<in> set (residuals ci r t)" by blast
      from Cons.IH [OF this(2)] obtain j where "s = drop j t" ..
      with u have "s = drop (Suc j) u" by simp
      then show ?thesis ..
    qed
  next
    case (Many n k)
    with Cons.prems obtain j where "s \<in> set (residuals ci r (drop j u))" by auto
    from Cons.IH [OF this] obtain i where "s = drop i (drop j u)" ..
    then have "s = drop (i + j) u" by simp
    then show ?thesis ..
  next
    case End
    with Cons.prems have "s \<in> set (residuals ci r u)" by (auto split: if_splits)
    then show ?thesis by (rule Cons.IH)
  qed
qed

lemma match_here_drop: "match_here ci p u = Some r \<Longrightarrow> \<exists>k. r = drop k u"
proof (induction p)
  case Nil
  then show ?case by simp
next
  case (Cons al als)
  show ?case
  proof (cases "residuals ci al u")
    case Nil
    with Cons show ?thesis by simp
  next
    case (Cons s ss)
    with Cons.prems have "r = s" by simp
    with Cons have "r \<in> set (residuals ci al u)" by simp
    then show ?thesis by (rule residuals_drop)
  qed
qed

lemma match_here_append:
  "\<forall>al \<in> set p. boundary_ok ci x v al \<Longrightarrow> u = [] \<or> last u = x
   \<Longrightarrow> match_here ci p (u @ v) = map_option (\<lambda>s. s @ v) (match_here ci p u)"
proof (induction p)
  case Nil
  show ?case by simp
next
  case (Cons al als)
  from Cons.prems have "boundary_ok ci x v al" by simp
  from residuals_append [OF this Cons.prems(2)]
  have r: "residuals ci al (u @ v) = map (\<lambda>s. s @ v) (residuals ci al u)" .
  from Cons have IH: "match_here ci als (u @ v) = map_option (\<lambda>s. s @ v) (match_here ci als u)" by simp
  show ?case by (cases "residuals ci al u") (simp_all add: r IH)
qed

lemma replace_all_Nil: "match_here ci p [] = None \<Longrightarrow> replace_all ci p m [] = []"
  by (subst replace_all.simps) simp

lemma replace_all_skip:
  "match_here ci p (c # s) = None \<Longrightarrow> replace_all ci p m (c # s) = c # replace_all ci p m s"
  by (subst replace_all.simps) simp

lemma replace_all_hit:
  "match_here ci p s = Some r \<Longrightarrow> length r < length s
   \<Longrightarrow> replace_all ci p m s = m @ replace_all ci p m r"
  by (subst replace_all.simps) simp

lemma replace_all_empty_hit:
  "match_here ci p (c # s) = Some r \<Longrightarrow> \<not> length r < length (c # s)
   \<Longrightarrow> replace_all ci p m (c # s) = m @ c # replace_all ci p m s"
  by (subst replace_all.simps) simp

lemma replace_all_append:
  assumes ok: "\<forall>al \<in> set p. boundary_ok ci x v al" and e: "match_here ci p [] = None"
  shows "u = [] \<or> last u = x
         \<Longrightarrow> replace_all ci p m (u @ v) = replace_all ci p m u @ replace_all ci p m v"
proof (induction u rule: length_induct)
  case (1 u)
  show ?case
  proof (cases u)
    case Nil
    then show ?thesis by (simp add: replace_all_Nil [OF e])
  next
    case (Cons c t)
    from "1.prems" Cons have t: "t = [] \<or> last t = x" by (cases t) auto
    have mh: "match_here ci p (u @ v) = map_option (\<lambda>s. s @ v) (match_here ci p u)"
      using ok "1.prems" by (rule match_here_append)
    have "length t < length u" using Cons by simp
    from "1.IH" [rule_format, OF this t]
    have IHt: "replace_all ci p m (t @ v) = replace_all ci p m t @ replace_all ci p m v" .
    show ?thesis
    proof (cases "match_here ci p u")
      case None
      with mh have "match_here ci p (c # (t @ v)) = None" using Cons by simp
      then have "replace_all ci p m (c # (t @ v)) = c # replace_all ci p m (t @ v)"
        by (rule replace_all_skip)
      moreover from None Cons have "replace_all ci p m (c # t) = c # replace_all ci p m t"
        by (intro replace_all_skip) simp
      ultimately show ?thesis using IHt Cons by simp
    next
      case (Some r)
      with mh have mv: "match_here ci p (u @ v) = Some (r @ v)" by simp
      from match_here_drop [OF Some] obtain k where k: "r = drop k u" ..
      from "1.prems" have rx: "r = [] \<or> last r = x" unfolding k by (rule ends_drop)
      show ?thesis
      proof (cases "length r < length u")
        case True
        then have "length (r @ v) < length (u @ v)" by simp
        with mv have "replace_all ci p m (u @ v) = m @ replace_all ci p m (r @ v)"
          by (rule replace_all_hit)
        moreover from Some True have "replace_all ci p m u = m @ replace_all ci p m r"
          by (rule replace_all_hit)
        moreover from "1.IH" [rule_format, OF True rx]
        have "replace_all ci p m (r @ v) = replace_all ci p m r @ replace_all ci p m v" .
        ultimately show ?thesis by simp
      next
        case False
        then have "\<not> length (r @ v) < length (c # (t @ v))" using Cons by simp
        moreover from mv Cons have "match_here ci p (c # (t @ v)) = Some (r @ v)" by simp
        ultimately have "replace_all ci p m (c # (t @ v)) = m @ c # replace_all ci p m (t @ v)"
          by (intro replace_all_empty_hit)
        moreover from Some False Cons have "replace_all ci p m (c # t) = m @ c # replace_all ci p m t"
          by (intro replace_all_empty_hit) simp_all
        ultimately show ?thesis using IHt Cons by simp
      qed
    qed
  qed
qed

lemma replace_all_last:
  assumes e: "match_here ci p [] = None" and m: "m \<noteq> []"
  shows "u \<noteq> [] \<Longrightarrow> replace_all ci p m u \<noteq> []
          \<and> (last (replace_all ci p m u) = last u \<or> last (replace_all ci p m u) = last m)"
proof (induction u rule: length_induct)
  case (1 u)
  then obtain c t where u: "u = c # t" by (cases u) auto
  have tail: "replace_all ci p m (c # t) = c # replace_all ci p m t \<or>
              replace_all ci p m (c # t) = m @ c # replace_all ci p m t \<Longrightarrow> ?case"
  proof -
    assume a: "replace_all ci p m (c # t) = c # replace_all ci p m t \<or>
              replace_all ci p m (c # t) = m @ c # replace_all ci p m t"
    show ?case
    proof (cases "t = []")
      case True
      with a u show ?thesis by (auto simp: replace_all_Nil [OF e])
    next
      case False
      moreover have "length t < length u" using u by simp
      ultimately have "replace_all ci p m t \<noteq> []
          \<and> (last (replace_all ci p m t) = last t \<or> last (replace_all ci p m t) = last m)"
        using "1.IH" [rule_format, of t] by blast
      with a u False show ?thesis by auto
    qed
  qed
  show ?case
  proof (cases "match_here ci p u")
    case None
    with u have "replace_all ci p m (c # t) = c # replace_all ci p m t"
      by (intro replace_all_skip) simp
    then show ?thesis by (intro tail) simp
  next
    case (Some r)
    show ?thesis
    proof (cases "length r < length u")
      case True
      with Some have eq: "replace_all ci p m u = m @ replace_all ci p m r" by (rule replace_all_hit)
      show ?thesis
      proof (cases "r = []")
        case True
        with eq m show ?thesis by (simp add: replace_all_Nil [OF e])
      next
        case False
        from match_here_drop [OF Some] obtain k where k: "r = drop k u" ..
        with False have "k < length u" by simp
        then have "last r = last u" unfolding k by (rule last_drop)
        moreover from "1.IH" [rule_format, OF True False] have "replace_all ci p m r \<noteq> []
          \<and> (last (replace_all ci p m r) = last r \<or> last (replace_all ci p m r) = last m)" .
        ultimately show ?thesis using eq by auto
      qed
    next
      case False
      with Some u have "replace_all ci p m (c # t) = m @ c # replace_all ci p m t"
        by (intro replace_all_empty_hit) simp_all
      then show ?thesis by (intro tail) simp
    qed
  qed
qed

lemma toLowerChar_other: "c \<notin> set upper_letters \<Longrightarrow> toLowerChar c = c"
proof -
  assume "c \<notin> set upper_letters"
  moreover have "length upper_letters = length lower_letters"
    by (simp add: upper_letters_def lower_letters_def)
  ultimately have "map_of (zip upper_letters lower_letters) c = None"
    by (simp add: map_of_zip_is_None)
  then show ?thesis by (simp add: toLowerChar_def)
qed

lemma toLowerChar_letter:
  "ch \<in> set (upper_letters @ lower_letters) \<Longrightarrow> toLowerChar ch \<in> set lower_letters"
  by (auto simp: toLowerChar_def upper_letters_def lower_letters_def)

lemma letter_differs:
  assumes "ch \<in> set (upper_letters @ lower_letters)" and "\<not> is_alnum x"
  shows "\<not> same_char True ch x"
proof -
  from assms(2) have "x \<notin> set upper_letters" and x: "x \<notin> set lower_letters"
    by (simp_all add: is_alnum_def)
  then have "toLowerChar x = x" by (simp add: toLowerChar_other)
  moreover from assms(1) have "toLowerChar ch \<in> set lower_letters" by (rule toLowerChar_letter)
  ultimately show ?thesis using x by auto
qed

lemmas char_eval = is_space_def is_alnum_def upper_letters_def lower_letters_def digits_def
  toLowerChar_def

lemma keyword_letters:
  "w \<in> set [''api'', ''secret'', ''password'', ''token'', ''key'', ''Bearer'']
   \<Longrightarrow> \<forall>ch \<in> set w. ch \<in> set (upper_letters @ lower_letters)"
  by (auto simp: upper_letters_def lower_letters_def)

lemma secret_tail_boundary:
  assumes "\<not> in_cls SecretChar x"
  shows "boundary_ok True x (assignment @ post) secret_tail"
  using assms by (simp add: secret_tail_def assignment_def char_eval)

lemma secret_boundary:
  assumes "\<not> in_cls SecretChar x"
  shows "\<forall>al \<in> set secret_pattern. boundary_ok True x (assignment @ post) al"
proof
  fix al assume "al \<in> set secret_pattern"
  then obtain w where w: "w \<in> set [''api'', ''secret'', ''password'', ''token'', ''key'']"
    and al: "al = Lit w # secret_tail"
    by (auto simp: secret_pattern_def)
  from assms have nx: "\<not> is_alnum x" by simp
  from w have "\<forall>ch \<in> set w. ch \<in> set (upper_letters @ lower_letters)"
    by (intro keyword_letters) auto
  with nx have ok: "item_ok True x (assignment @ post) (Lit w)"
    using letter_differs by (simp del: same_char.simps) 
  have base: "residuals True (Lit w # secret_tail) (assignment @ post) =
      map (\<lambda>s. s @ (assignment @ post)) (residuals True (Lit w # secret_tail) [])"
    using w by (auto simp: assignment_def char_eval)
  from ok base secret_tail_boundary [OF assms] show "boundary_ok True x (assignment @ post) al"
    unfolding al by simp
qed

lemma secret_pattern_nonempty: "match_here True secret_pattern [] = None"
  by (simp add: secret_pattern_def secret_tail_def)

lemma bearer_pattern_nonempty: "match_here True bearer_pattern [] = None"
  by (simp add: bearer_pattern_def)

lemma secret_run:
  assumes "\<not> in_cls SecretChar c"
  shows "takeWhile (in_cls SecretChar) (''sk-aaaaaaaaaaaaaaaaaaaaaaaa'' @ c # t) = ''sk-aaaaaaaaaaaaaaaaaaaaaaaa''"
proof -
  have "takeWhile (in_cls SecretChar) (''sk-aaaaaaaaaaaaaaaaaaaaaaaa'' @ c # t) =
        takeWhile (in_cls SecretChar) ''sk-aaaaaaaaaaaaaaaaaaaaaaaa''"
    using assms by (rule takeWhile_tail)
  also have "\<dots> = ''sk-aaaaaaaaaaaaaaaaaaaaaaaa''"
    by (simp add: char_eval)
  finally show ?thesis .
qed

lemma value_match:
  assumes "\<not> in_cls SecretChar c" and "\<not> in_cls Quote c"
  shows "\<exists>rs. residuals True [Many 16 SecretChar, Opt Quote] (''sk-aaaaaaaaaaaaaaaaaaaaaaaa'' @ c # t)
           = (c # t) # rs"
proof -
  let ?v = "''sk-aaaaaaaaaaaaaaaaaaaaaaaa'' @ c # t"
  have l: "Suc (length (takeWhile (in_cls SecretChar) ?v)) = 28"
    by (simp only: secret_run [OF assms(1)]) simp
  have "[16 ..< 28] = [16 ..< 27] @ [27::nat]"
    using upt_Suc_append [of 16 27] by simp
  then have r: "rev [16 ..< 28] = (27::nat) # rev [16 ..< 27]"
    by (simp only: rev_append rev.simps append_Nil append_Cons)
  have d: "drop 27 ?v = c # t" by simp
  have q: "residuals True [Opt Quote] (c # t) = [c # t]"
    using assms(2) by simp
  have "residuals True [Many 16 SecretChar, Opt Quote] ?v =
        concat (map (\<lambda>j. residuals True [Opt Quote] (drop j ?v)) (rev [16 ..< 28]))"
    by (simp only: residuals.simps l)
  also have "\<dots> = residuals True [Opt Quote] (drop 27 ?v) @
        concat (map (\<lambda>j. residuals True [Opt Quote] (drop j ?v)) (rev [16 ..< 27]))"
    by (simp only: r list.map concat.simps)
  also have "\<dots> = [c # t] @
        concat (map (\<lambda>j. residuals True [Opt Quote] (drop j ?v)) (rev [16 ..< 27]))"
    by (simp only: d q)
  also have "\<dots> = (c # t) #
        concat (map (\<lambda>j. residuals True [Opt Quote] (drop j ?v)) (rev [16 ..< 27]))"
    by (simp only: append_Cons append_Nil)
  finally show ?thesis by (rule exI)
qed

lemma many_none: "\<not> in_cls k c \<Longrightarrow> residuals ci (Many 0 k # r) (c # s) = residuals ci r (c # s)"
  by simp

lemma key_match:
  assumes "\<not> in_cls SecretChar c" and "\<not> in_cls Quote c"
  shows "match_here True secret_pattern (''KEY=sk-aaaaaaaaaaaaaaaaaaaaaaaa'' @ c # t) = Some (c # t)"
proof -
  let ?v = "''sk-aaaaaaaaaaaaaaaaaaaaaaaa'' @ c # t"
  from value_match [OF assms, of t] obtain rs where
    rs: "residuals True [Many 16 SecretChar, Opt Quote] ?v = (c # t) # rs" ..
  have "residuals True (Lit ''key'' # secret_tail) (''KEY='' @ ?v) = (c # t) # rs"
    unfolding secret_tail_def using rs
    by (simp add: many_none is_space_def toLowerChar_def upper_letters_def lower_letters_def
          del: residuals.simps(6))
  then show ?thesis
    by (simp add: secret_pattern_def toLowerChar_def upper_letters_def lower_letters_def)
qed

lemma skip_to_key:
  "replace_all True secret_pattern m (''OPENAI_API_'' @ rest) =
     ''OPENAI_API_'' @ replace_all True secret_pattern m rest"
  by (simp add: replace_all_skip secret_pattern_def secret_tail_def is_space_def
        toLowerChar_def upper_letters_def lower_letters_def)

lemma skip_redacted:
  "replace_all True bearer_pattern m (''OPENAI_API_[REDACTED]'' @ rest) =
     ''OPENAI_API_[REDACTED]'' @ replace_all True bearer_pattern m rest"
  by (simp add: replace_all_skip bearer_pattern_def
        toLowerChar_def upper_letters_def lower_letters_def)

lemma redact_assignment:
  assumes "post = [] \<or> (\<not> in_cls SecretChar (hd post) \<and> \<not> in_cls Quote (hd post))"
  shows "replace_all True secret_pattern REDACTED (assignment @ post) =
           ''OPENAI_API_[REDACTED]'' @ replace_all True secret_pattern REDACTED post"
proof (cases post)
  case Nil
  have "replace_all True secret_pattern REDACTED assignment = ''OPENAI_API_[REDACTED]''"
    by code_simp
  with Nil show ?thesis by (simp add: replace_all_Nil [OF secret_pattern_nonempty])
next
  case (Cons c t)
  with assms have c: "\<not> in_cls SecretChar c" "\<not> in_cls Quote c" by simp_all
  let ?kv = "''KEY=sk-aaaaaaaaaaaaaaaaaaaaaaaa'' @ c # t"
  have "assignment @ post = ''OPENAI_API_'' @ ?kv" by (simp add: assignment_def Cons)
  then have "replace_all True secret_pattern REDACTED (assignment @ post) =
        ''OPENAI_API_'' @ replace_all True secret_pattern REDACTED ?kv"
    by (simp only: skip_to_key)
  also have "replace_all True secret_pattern REDACTED ?kv =
        REDACTED @ replace_all True secret_pattern REDACTED (c # t)"
    using key_match [OF c] by (rule replace_all_hit) simp
  finally show ?thesis by (simp add: REDACTED_def Cons)
qed

lemma bearer_boundary:
  assumes "\<not> in_cls TokenChar x"
  shows "\<forall>al \<in> set bearer_pattern. boundary_ok True x (''OPENAI_API_[REDACTED]'' @ rest) al"
proof -
  from assms have nx: "\<not> is_alnum x" by simp
  have "\<forall>ch \<in> set ''Bearer''. ch \<in> set (upper_letters @ lower_letters)"
    by (intro keyword_letters) simp
  with nx have ok: "item_ok True x (''OPENAI_API_[REDACTED]'' @ rest) (Lit ''Bearer'')"
    using letter_differs by (simp del: same_char.simps)
  have t: "boundary_ok True x (''OPENAI_API_[REDACTED]'' @ rest) [Many 1 Space, Many 16 TokenChar]"
    using assms by (simp add: char_eval)
  have base: "residuals True [Lit ''Bearer'', Many 1 Space, Many 16 TokenChar] (''OPENAI_API_[REDACTED]'' @ rest) =
      map (\<lambda>s. s @ (''OPENAI_API_[REDACTED]'' @ rest))
        (residuals True [Lit ''Bearer'', Many 1 Space, Many 16 TokenChar] [])"
    by (simp add: char_eval)
  from ok t base show ?thesis by (simp add: bearer_pattern_def del: item_ok.simps residuals.simps)
qed

lemma redactSecrets_passes:
  "redactSecrets s = replace_all True bearer_pattern REDACTED (replace_all True secret_pattern REDACTED s)"
  by (simp add: redactSecrets_def)

text \<open>
  Where the redaction of this assignment does work: at the start of the text or after
  a character outside the value alphabet, and before the end of the text or a
  character that is neither of the value alphabet nor a quote.
\<close>

lemma redactSecrets_around_assignment:
  assumes pre: "pre = [] \<or> \<not> in_cls SecretChar (last pre)"
    and post: "post = [] \<or> (\<not> in_cls SecretChar (hd post) \<and> \<not> in_cls Quote (hd post))"
  shows "redactSecrets (pre @ assignment @ post) =
           redactSecrets pre @ ''OPENAI_API_[REDACTED]'' @ redactSecrets post"
proof -
  let ?p1 = "replace_all True secret_pattern REDACTED"
  let ?p2 = "replace_all True bearer_pattern REDACTED"
  have one: "?p1 (pre @ assignment @ post) = ?p1 pre @ ?p1 (assignment @ post)"
  proof (cases "pre = []")
    case True
    then show ?thesis by (simp add: replace_all_Nil [OF secret_pattern_nonempty])
  next
    case False
    with pre have "\<not> in_cls SecretChar (last pre)" by simp
    from secret_boundary [OF this] secret_pattern_nonempty show ?thesis
      by (rule replace_all_append) simp
  qed
  have two: "?p1 (assignment @ post) = ''OPENAI_API_[REDACTED]'' @ ?p1 post"
    using post by (rule redact_assignment)
  have three: "?p2 (?p1 pre @ ''OPENAI_API_[REDACTED]'' @ ?p1 post) =
               ?p2 (?p1 pre) @ ?p2 (''OPENAI_API_[REDACTED]'' @ ?p1 post)"
  proof (cases "pre = []")
    case True
    then show ?thesis
      by (simp add: replace_all_Nil [OF secret_pattern_nonempty] replace_all_Nil [OF bearer_pattern_nonempty])
  next
    case False
    with pre have np: "\<not> in_cls SecretChar (last pre)" by simp
    have "REDACTED \<noteq> []" by (simp add: REDACTED_def)
    from replace_all_last [OF secret_pattern_nonempty this False]
    have ne: "?p1 pre \<noteq> []" and l: "last (?p1 pre) = last pre \<or> last (?p1 pre) = last REDACTED"
      by simp_all
    from l np have "\<not> in_cls TokenChar (last (?p1 pre))"
      by (auto simp: REDACTED_def char_eval)
    from bearer_boundary [OF this] bearer_pattern_nonempty show ?thesis
      by (rule replace_all_append) simp
  qed
  have four: "?p2 (''OPENAI_API_[REDACTED]'' @ ?p1 post) = ''OPENAI_API_[REDACTED]'' @ ?p2 (?p1 post)"
    by (rule skip_redacted)
  show ?thesis
    unfolding redactSecrets_passes by (simp only: one two three four)
qed

lemma sanitized_assignment: "truncateDiff (redactSecrets assignment) 12000 = ''OPENAI_API_[REDACTED]''"
  by code_simp

lemma prompts_without_secret:
  "\<not> includes_str ''OPENAI_API_[REDACTED]'' secret_value
   \<and> \<not> includes_str (chat_prompt ''OPENAI_API_[REDACTED]'' (analyzeDiff ''OPENAI_API_[REDACTED]'')) secret_value
   \<and> \<not> includes_str (hf_prompt ''OPENAI_API_[REDACTED]'') secret_value
   \<and> \<not> includes_str (free_prompt ''OPENAI_API_[REDACTED]'') secret_value"
  by code_simp

text \<open>
  Claim C8 fails on the code. The diff \<open>+secret=MY_OPENAI_API_KEY=sk-...\<close> contains
  the assignment of the claim. The first pattern matches from \<open>secret\<close> to the end
  of the name \<open>MY_OPENAI_API_KEY\<close>, which is 17 characters of the value alphabet;
  the scan resumes at the second \<open>=\<close>, where no keyword stands, and the value of
  the key is left in the sanitized text and in the prompt built from it.
\<close>

theorem secret_survives_redaction:
  "includes_str leaky_diff assignment
   \<and> truncateDiff (redactSecrets leaky_diff) 12000 = ''+[REDACTED]=sk-aaaaaaaaaaaaaaaaaaaaaaaa''
   \<and> includes_str (truncateDiff (redactSecrets leaky_diff) 12000) secret_value
   \<and> includes_str (chat_prompt (truncateDiff (redactSecrets leaky_diff) 12000)
                      (analyzeDiff (truncateDiff (redactSecrets leaky_diff) 12000))) secret_value"
  by code_simp

end
